theory Spec2Isabelle
  imports Main "HOL-Library.Multiset"
begin

section \<open>The logger's data\<close>

text \<open>
  A shallow embedding of \<^verbatim>\<open>class Log\<close> of \<^verbatim>\<open>basicLogger.cpp\<close>.

  A thread id obtained from \<^verbatim>\<open>std::this_thread::get_id()\<close> is a natural number; the
  member \<^verbatim>\<open>mCurrentThreadId\<close> is an optional id, \<open>None\<close> being the default-constructed
  \<^verbatim>\<open>std::thread::id{}\<close>, which never equals the id of a running thread.

  The closure stored in an entry is always \<^verbatim>\<open>[=, value] { mStream << value; }\<close>, so it
  is represented by what it inserts: a value (given by the characters its
  \<^verbatim>\<open>operator<<\<close> writes), \<^verbatim>\<open>std::endl\<close> or \<^verbatim>\<open>std::flush\<close>.
\<close>

type_synonym thread_id = nat

datatype insertion = Value string | Endl | Flush

record LogEntry =
  mThreadId :: thread_id
  mFunctor :: insertion

text \<open>
  What the logger does to the outside, in the order it does it: taking and releasing
  \<^verbatim>\<open>mLogMutex\<close>, \<^verbatim>\<open>notify_one\<close> on the condition variable, the call of an entry's
  closure, and a write to \<^verbatim>\<open>std::cout\<close>.
\<close>

datatype event = Lock | Unlock | Notify | Call LogEntry | Cout string

text \<open>
  The iterator \<^verbatim>\<open>mCurrentLog\<close> into the \<^verbatim>\<open>std::list\<close> is \<open>None\<close> for
  \<^verbatim>\<open>std::end(mLogQueue)\<close> and \<open>Some i\<close> for the node at position \<open>i\<close>. A list iterator
  keeps designating its node when an element is appended, and the end iterator stays the
  end iterator. \<open>mStream\<close> holds the characters of the string buffer; \<open>mThreadExited\<close> says
  that \<^verbatim>\<open>mThread\<close> has left \<^verbatim>\<open>serialize\<close>; \<open>effects\<close> is the history of events.
\<close>

record Log =
  mLogQueue :: "LogEntry list"
  mCurrentLog :: "nat option"
  mCurrentThreadId :: "thread_id option"
  mClosing :: bool
  mFlushed :: bool
  mStream :: string
  mThreadExited :: bool
  effects :: "event list"

definition Log_init :: Log where
  "Log_init = \<lparr>mLogQueue = [], mCurrentLog = None, mCurrentThreadId = None,
     mClosing = False, mFlushed = False, mStream = [], mThreadExited = False,
     effects = []\<rparr>"

definition effect :: "event \<Rightarrow> Log \<Rightarrow> Log" where
  "effect e s = s\<lparr>effects := effects s @ [e]\<rparr>"

section \<open>The stream and its buffer\<close>

definition handleSync :: "Log \<Rightarrow> Log" where
  "handleSync s = s\<lparr>mFlushed := True\<rparr>"

text \<open>
  \<^verbatim>\<open>mStream << value\<close>: a value appends its characters; \<^verbatim>\<open>std::endl\<close> puts a newline
  and flushes, \<^verbatim>\<open>std::flush\<close> flushes, and a flush reaches \<^verbatim>\<open>LogBuf::sync\<close>, which calls
  \<^verbatim>\<open>handleSync\<close>.
\<close>

fun stream_insert :: "insertion \<Rightarrow> Log \<Rightarrow> Log" where
  "stream_insert (Value txt) s = s\<lparr>mStream := mStream s @ txt\<rparr>"
| "stream_insert Endl s = handleSync (s\<lparr>mStream := mStream s @ [CHR 0x0A]\<rparr>)"
| "stream_insert Flush s = handleSync s"

definition call_functor :: "LogEntry \<Rightarrow> Log \<Rightarrow> Log" where
  "call_functor e s = stream_insert (mFunctor e) (effect (Call e) s)"

text \<open>\<^verbatim>\<open>Log::flush\<close>: write \<^verbatim>\<open>getStringAndClear()\<close> to \<^verbatim>\<open>std::cout\<close>, reset \<^verbatim>\<open>mFlushed\<close>.\<close>

definition flush :: "Log \<Rightarrow> Log" where
  "flush s = (effect (Cout (mStream s)) s)\<lparr>mStream := [], mFlushed := False\<rparr>"

text \<open>What the closure of an entry writes, and whether it flushes.\<close>

fun rendered :: "insertion \<Rightarrow> string" where
  "rendered (Value txt) = txt"
| "rendered Endl = [CHR 0x0A]"
| "rendered Flush = []"

fun flushes :: "insertion \<Rightarrow> bool" where
  "flushes (Value txt) = False"
| "flushes Endl = True"
| "flushes Flush = True"

section \<open>List operations of the standard library\<close>

definition begin_it :: "'a list \<Rightarrow> nat option" where
  "begin_it q = (if q = [] then None else Some 0)"

text \<open>\<^verbatim>\<open>erase\<close> removes the node and returns the iterator to the node after it.\<close>

definition erase :: "nat \<Rightarrow> 'a list \<Rightarrow> 'a list" where
  "erase i q = take i q @ drop (Suc i) q"

definition erase_it :: "nat \<Rightarrow> 'a list \<Rightarrow> nat option" where
  "erase_it i q = (if i < length (erase i q) then Some i else None)"

fun find_first :: "('a \<Rightarrow> bool) \<Rightarrow> 'a list \<Rightarrow> nat option" where
  "find_first P [] = None"
| "find_first P (x # xs) = (if P x then Some 0 else map_option Suc (find_first P xs))"

text \<open>\<^verbatim>\<open>std::find_if(first, end, pred)\<close>: the first node from \<open>first\<close> on that satisfies
  the predicate, or the end iterator.\<close>

definition find_if :: "nat option \<Rightarrow> ('a \<Rightarrow> bool) \<Rightarrow> 'a list \<Rightarrow> nat option" where
  "find_if first P q =
     (case first of None \<Rightarrow> None
      | Some i \<Rightarrow> map_option (\<lambda>j. i + j) (find_first P (drop i q)))"

section \<open>Appending: \<^verbatim>\<open>Log::write\<close> (\<open>write\<close> is reserved, hence \<open>Log_write\<close>)\<close>

definition Log_write :: "thread_id \<Rightarrow> insertion \<Rightarrow> Log \<Rightarrow> Log" where
  "Log_write tid v s =
     (let s1 = effect Lock s;
          s2 = s1\<lparr>mLogQueue := mLogQueue s1 @ [\<lparr>mThreadId = tid, mFunctor = v\<rparr>]\<rparr>;
          s3 = (if mCurrentThreadId s2 = None then
                  effect Notify
                    (s2\<lparr>mCurrentLog := begin_it (mLogQueue s2),
                        mCurrentThreadId := Some (mThreadId (hd (mLogQueue s2)))\<rparr>)
                else if mCurrentThreadId s2 = Some tid then
                  effect Notify
                    (if mCurrentLog s2 = None
                     then s2\<lparr>mCurrentLog := Some (length (mLogQueue s2) - 1)\<rparr>
                     else s2)
                else s2)
      in effect Unlock s3)"

section \<open>\<^verbatim>\<open>Log::serialize\<close>\<close>

text \<open>The predicate of \<^verbatim>\<open>mNotificationVariable.wait\<close>.\<close>

definition wait_pred :: "Log \<Rightarrow> bool" where
  "wait_pred s = (mClosing s \<or> mCurrentLog s \<noteq> None)"

text \<open>
  The body of the \<^verbatim>\<open>do ... while\<close> loop (lines 163 to 185). The result is \<open>None\<close> when
  the body dereferences an iterator that designates no node, which is undefined in C++;
  otherwise the flag says whether the body left through \<^verbatim>\<open>break\<close>.
\<close>

definition serialize_body :: "Log \<Rightarrow> (bool \<times> Log) option" where
  "serialize_body s =
     (case mCurrentLog s of
        None \<Rightarrow> None
      | Some i \<Rightarrow>
          if length (mLogQueue s) \<le> i then None
          else
            let s1 = call_functor (mLogQueue s ! i) s in
            if mFlushed s1 then
              let s2 = flush s1;
                  s3 = s2\<lparr>mLogQueue := erase i (mLogQueue s2)\<rparr>;
                  s4 = s3\<lparr>mCurrentLog := begin_it (mLogQueue s3)\<rparr>
              in if mCurrentLog s4 = None
                 then Some (True, s4\<lparr>mCurrentThreadId := None\<rparr>)
                 else Some (False,
                        s4\<lparr>mCurrentThreadId := Some (mThreadId (hd (mLogQueue s4)))\<rparr>)
            else
              let q = erase i (mLogQueue s1)
              in Some (False,
                   s1\<lparr>mLogQueue := q,
                      mCurrentLog :=
                        find_if (erase_it i (mLogQueue s1))
                          (\<lambda>entry. mCurrentThreadId s1 = Some (mThreadId entry)) q\<rparr>))"

lemma stream_insert_fields [simp]:
  "mLogQueue (stream_insert v s) = mLogQueue s"
  "mCurrentLog (stream_insert v s) = mCurrentLog s"
  "mCurrentThreadId (stream_insert v s) = mCurrentThreadId s"
  "mClosing (stream_insert v s) = mClosing s"
  "mThreadExited (stream_insert v s) = mThreadExited s"
  "effects (stream_insert v s) = effects s"
  "mStream (stream_insert v s) = mStream s @ rendered v"
  "mFlushed (stream_insert v s) = (mFlushed s \<or> flushes v)"
  by (cases v; simp add: handleSync_def)+

lemma effect_fields [simp]:
  "mLogQueue (effect e s) = mLogQueue s"
  "mCurrentLog (effect e s) = mCurrentLog s"
  "mCurrentThreadId (effect e s) = mCurrentThreadId s"
  "mClosing (effect e s) = mClosing s"
  "mThreadExited (effect e s) = mThreadExited s"
  "effects (effect e s) = effects s @ [e]"
  "mStream (effect e s) = mStream s"
  "mFlushed (effect e s) = mFlushed s"
  by (simp_all add: effect_def)

lemma call_functor_fields [simp]:
  "mLogQueue (call_functor e s) = mLogQueue s"
  "mCurrentLog (call_functor e s) = mCurrentLog s"
  "mCurrentThreadId (call_functor e s) = mCurrentThreadId s"
  "mClosing (call_functor e s) = mClosing s"
  "mThreadExited (call_functor e s) = mThreadExited s"
  "effects (call_functor e s) = effects s @ [Call e]"
  "mStream (call_functor e s) = mStream s @ rendered (mFunctor e)"
  "mFlushed (call_functor e s) = (mFlushed s \<or> flushes (mFunctor e))"
  by (simp_all add: call_functor_def)

lemma flush_fields [simp]:
  "mLogQueue (flush s) = mLogQueue s"
  "mCurrentLog (flush s) = mCurrentLog s"
  "mCurrentThreadId (flush s) = mCurrentThreadId s"
  "mClosing (flush s) = mClosing s"
  "mThreadExited (flush s) = mThreadExited s"
  "effects (flush s) = effects s @ [Cout (mStream s)]"
  "mStream (flush s) = []"
  "mFlushed (flush s) = False"
  by (simp_all add: flush_def)

lemma length_erase [simp]: "i < length q \<Longrightarrow> length (erase i q) = length q - 1"
  by (simp add: erase_def)

lemma erase_it_eq: "erase_it i q = (if Suc i < length q then Some i else None)"
  by (auto simp: erase_it_def erase_def)

lemma serialize_body_length:
  "serialize_body s = Some (brk, s') \<Longrightarrow> length (mLogQueue s') < length (mLogQueue s)"
  by (auto simp: serialize_body_def Let_def split: option.splits if_splits)

text \<open>
  The \<^verbatim>\<open>do ... while\<close> loop (lines 162 to 186): the body, then the test
  \<^verbatim>\<open>mCurrentLog != end && mCurrentThreadId == mCurrentLog->mThreadId\<close>.
\<close>

function serialize_do_while :: "Log \<Rightarrow> Log option" where
  "serialize_do_while s =
     (case serialize_body s of
        None \<Rightarrow> None
      | Some (brk, s') \<Rightarrow>
          if brk then Some s'
          else
            (case mCurrentLog s' of
               None \<Rightarrow> Some s'
             | Some i \<Rightarrow>
                 if length (mLogQueue s') \<le> i then None
                 else if mCurrentThreadId s' = Some (mThreadId (mLogQueue s' ! i))
                 then serialize_do_while s'
                 else Some s'))"
  by pat_completeness auto
termination
  by (relation "measure (\<lambda>s. length (mLogQueue s))") (auto dest: serialize_body_length)

declare serialize_do_while.simps [simp del]

text \<open>
  The closing path. The inner loop (lines 144 to 155) runs from \<^verbatim>\<open>mCurrentLog\<close> to the
  end of the queue, calling and erasing the entries of \<^verbatim>\<open>mCurrentThreadId\<close> and stepping
  over the others.
\<close>

function closing_inner :: "Log \<Rightarrow> Log option" where
  "closing_inner s =
     (case mCurrentLog s of
        None \<Rightarrow> Some s
      | Some i \<Rightarrow>
          if length (mLogQueue s) \<le> i then None
          else if mCurrentThreadId s = Some (mThreadId (mLogQueue s ! i)) then
            closing_inner
              (let s1 = call_functor (mLogQueue s ! i) s
               in s1\<lparr>mCurrentLog := erase_it i (mLogQueue s1),
                     mLogQueue := erase i (mLogQueue s1)\<rparr>)
          else
            closing_inner
              (s\<lparr>mCurrentLog := (if Suc i < length (mLogQueue s) then Some (Suc i) else None)\<rparr>))"
  by pat_completeness auto
termination
  by (relation "measure (\<lambda>s. case mCurrentLog s of None \<Rightarrow> 0
                               | Some i \<Rightarrow> Suc (length (mLogQueue s) - i))")
     (auto simp: erase_it_eq Let_def)

declare closing_inner.simps [simp del]

lemma closing_inner_end:
  "closing_inner s = Some s' \<Longrightarrow> mCurrentLog s' = None \<and> length (mLogQueue s') \<le> length (mLogQueue s)"
proof (induction s rule: closing_inner.induct)
  case (1 s)
  show ?case
  proof (cases "mCurrentLog s")
    case None
    with "1.prems" show ?thesis by (simp add: closing_inner.simps)
  next
    case (Some i)
    show ?thesis
    proof (cases "length (mLogQueue s) \<le> i")
      case True
      with Some "1.prems" show ?thesis by (simp add: closing_inner.simps)
    next
      case False
      show ?thesis
      proof (cases "mCurrentThreadId s = Some (mThreadId (mLogQueue s ! i))")
        case True
        with Some False "1.prems" "1.IH"(1)[OF Some False True] show ?thesis
          by (subst (asm) closing_inner.simps) (auto simp: Let_def)
      next
        case ne: False
        with Some False "1.prems" "1.IH"(2)[OF Some False ne] show ?thesis
          by (subst (asm) closing_inner.simps) auto
      qed
    qed
  qed
qed

lemma closing_inner_head:
  assumes "closing_inner s = Some s'" "mCurrentLog s = Some 0" "mLogQueue s \<noteq> []"
    "mCurrentThreadId s = Some (mThreadId (hd (mLogQueue s)))"
  shows "length (mLogQueue s') < length (mLogQueue s)"
proof -
  let ?s1 = "call_functor (mLogQueue s ! 0) s"
  let ?s2 = "?s1\<lparr>mCurrentLog := erase_it 0 (mLogQueue ?s1), mLogQueue := erase 0 (mLogQueue ?s1)\<rparr>"
  have "closing_inner s = closing_inner ?s2"
    using assms(2-4) by (subst closing_inner.simps) (simp add: hd_conv_nth Let_def)
  with assms(1) have "closing_inner ?s2 = Some s'" by simp
  from closing_inner_end[OF this] have "length (mLogQueue s') \<le> length (mLogQueue ?s2)" by simp
  also have "\<dots> < length (mLogQueue s)" using assms(3) by simp
  finally show ?thesis .
qed

text \<open>
  The outer loop (lines 136 to 156): while the queue is not empty, restart from its head
  when the iterator is at the end, taking the head's thread, and run the inner loop.
\<close>

function closing_outer :: "Log \<Rightarrow> Log option" where
  "closing_outer s =
     (if mLogQueue s = [] then Some s
      else
        (case closing_inner
                (if mCurrentLog s = None
                 then s\<lparr>mCurrentLog := begin_it (mLogQueue s),
                         mCurrentThreadId := Some (mThreadId (hd (mLogQueue s)))\<rparr>
                 else s) of
           None \<Rightarrow> None
         | Some s' \<Rightarrow> closing_outer s'))"
  by pat_completeness auto
termination
proof (relation "measures [\<lambda>s. length (mLogQueue s),
                           \<lambda>s. if mCurrentLog s = None then 0 else 1]")
  show "wf (measures [\<lambda>s. length (mLogQueue s),
                      \<lambda>s::Log. if mCurrentLog s = None then 0 else 1])"
    by simp
next
  fix s s'
  assume q: "mLogQueue s \<noteq> []"
    and r: "closing_inner
              (if mCurrentLog s = None
               then s\<lparr>mCurrentLog := begin_it (mLogQueue s),
                       mCurrentThreadId := Some (mThreadId (hd (mLogQueue s)))\<rparr>
               else s) = Some s'"
  show "(s', s) \<in> measures [\<lambda>s. length (mLogQueue s),
                             \<lambda>s. if mCurrentLog s = None then 0 else 1]"
  proof (cases "mCurrentLog s")
    case None
    with r q have "length (mLogQueue s') < length (mLogQueue s)"
      using closing_inner_head
        [of "s\<lparr>mCurrentLog := begin_it (mLogQueue s),
               mCurrentThreadId := Some (mThreadId (hd (mLogQueue s)))\<rparr>" s']
      by (simp add: begin_it_def)
    then show ?thesis by simp
  next
    case (Some i)
    with r have "mCurrentLog s' = None" "length (mLogQueue s') \<le> length (mLogQueue s)"
      using closing_inner_end [of s s'] by simp_all
    with Some show ?thesis by auto
  qed
qed

declare closing_outer.simps [simp del]

text \<open>
  One pass through the body of \<^verbatim>\<open>while (true)\<close>, from the point where \<^verbatim>\<open>wait\<close> has
  returned with the mutex held (the \<^verbatim>\<open>unique_lock\<close> of line 129) to the end of the body,
  where the lock goes out of scope. On the closing path the pass ends in \<^verbatim>\<open>flush(); break\<close>
  and the thread leaves \<^verbatim>\<open>serialize\<close>.
\<close>

definition serialize_pass :: "Log \<Rightarrow> Log option" where
  "serialize_pass s =
     (let s0 = effect Lock s in
      if mClosing s0 then
        (case closing_outer s0 of
           None \<Rightarrow> None
         | Some s1 \<Rightarrow> Some ((effect Unlock (flush s1))\<lparr>mThreadExited := True\<rparr>))
      else map_option (effect Unlock) (serialize_do_while s0))"

text \<open>
  A step of the thread \<^verbatim>\<open>mThread\<close>: it stays where it is once it has left
  \<^verbatim>\<open>serialize\<close> and while the predicate of \<^verbatim>\<open>wait\<close> is false (it is blocked on the
  condition variable, the mutex released); otherwise it makes one pass.
\<close>

definition worker_step :: "Log \<Rightarrow> Log option" where
  "worker_step s = (if mThreadExited s \<or> \<not> wait_pred s then Some s else serialize_pass s)"

section \<open>The destructor\<close>

text \<open>The first half of \<^verbatim>\<open>~Log\<close>: set \<^verbatim>\<open>mClosing\<close> under the mutex, then notify.\<close>

definition request_close :: "Log \<Rightarrow> Log" where
  "request_close s = effect Notify (effect Unlock ((effect Lock s)\<lparr>mClosing := True\<rparr>))"

text \<open>
  \<^verbatim>\<open>~Log\<close> as a whole; \<^verbatim>\<open>mThread.join()\<close> returns when the thread has left
  \<^verbatim>\<open>serialize\<close>, which the thread does in its next pass since \<^verbatim>\<open>mClosing\<close> is set.
\<close>

definition Log_dtor :: "Log \<Rightarrow> Log option" where
  "Log_dtor s = worker_step (request_close s)"

section \<open>Executions\<close>

text \<open>
  \<^verbatim>\<open>write\<close> and a pass of \<^verbatim>\<open>serialize\<close> run under the mutex, so an execution of the
  program is a sequence of such steps: a thread appends, the worker thread is scheduled,
  or the destructor requests the shutdown.
\<close>

datatype action = Append thread_id insertion | Worker | Close

fun step :: "action \<Rightarrow> Log \<Rightarrow> Log option" where
  "step (Append tid v) s = Some (Log_write tid v s)"
| "step Worker s = worker_step s"
| "step Close s = Some (request_close s)"

fun run :: "action list \<Rightarrow> Log \<Rightarrow> Log option" where
  "run [] s = Some s"
| "run (a # as) s = (case step a s of None \<Rightarrow> None | Some s' \<Rightarrow> run as s')"

text \<open>Observations of a history of events.\<close>

fun sink :: "event list \<Rightarrow> string list" where
  "sink [] = []"
| "sink (Cout txt # es) = txt # sink es"
| "sink (e # es) = sink es"

fun called :: "event list \<Rightarrow> LogEntry list" where
  "called [] = []"
| "called (Call e # es) = e # called es"
| "called (e # es) = called es"

fun signals :: "event list \<Rightarrow> nat" where
  "signals [] = 0"
| "signals (Notify # es) = Suc (signals es)"
| "signals (e # es) = signals es"

text \<open>The entries that the appends of an execution put into the queue, in order.\<close>

fun appended :: "action list \<Rightarrow> LogEntry list" where
  "appended [] = []"
| "appended (Append tid v # as) = \<lparr>mThreadId = tid, mFunctor = v\<rparr> # appended as"
| "appended (a # as) = appended as"

text \<open>
  Whether \<^verbatim>\<open>mLogMutex\<close> is held after a history of events, given whether it was held
  before.
\<close>

fun held_after :: "bool \<Rightarrow> event list \<Rightarrow> bool" where
  "held_after h [] = h"
| "held_after h (Lock # es) = held_after True es"
| "held_after h (Unlock # es) = held_after False es"
| "held_after h (e # es) = held_after h es"

text \<open>
  The discipline of a history: the mutex is taken only when it is free and released only
  when it is held, and every call of a closure and every write to \<^verbatim>\<open>std::cout\<close> happens
  while it is held.
\<close>

fun under_mutex :: "bool \<Rightarrow> event list \<Rightarrow> bool" where
  "under_mutex h [] = True"
| "under_mutex h (Lock # es) = (\<not> h \<and> under_mutex True es)"
| "under_mutex h (Unlock # es) = (h \<and> under_mutex False es)"
| "under_mutex h (Call e # es) = (h \<and> under_mutex h es)"
| "under_mutex h (Cout txt # es) = (h \<and> under_mutex h es)"
| "under_mutex h (Notify # es) = under_mutex h es"


text \<open>
  A history that consists of calls of closures and writes to \<^verbatim>\<open>std::cout\<close> only: the
  mutex is neither taken nor released in it, and nothing is notified.
\<close>

fun pass_events :: "event list \<Rightarrow> bool" where
  "pass_events [] = True"
| "pass_events (Call e # es) = pass_events es"
| "pass_events (Cout txt # es) = pass_events es"
| "pass_events (e # es) = False"

text \<open>
  The lines of a sequence of insertions: the text of each maximal run that ends in a flush
  token (\<open>acc\<close> is the text before the sequence), and the text left after the last one.
\<close>

fun lines_of :: "string \<Rightarrow> insertion list \<Rightarrow> string list" where
  "lines_of acc [] = []"
| "lines_of acc (v # vs) =
     (if flushes v then (acc @ rendered v) # lines_of [] vs
      else lines_of (acc @ rendered v) vs)"

fun pending_text :: "string \<Rightarrow> insertion list \<Rightarrow> string" where
  "pending_text acc [] = acc"
| "pending_text acc (v # vs) =
     (if flushes v then pending_text [] vs else pending_text (acc @ rendered v) vs)"

definition of_thread :: "thread_id \<Rightarrow> LogEntry list \<Rightarrow> LogEntry list" where
  "of_thread t es = filter (\<lambda>e. mThreadId e = t) es"

text \<open>
  The texts written to \<^verbatim>\<open>std::cout\<close> directly after the call of a closure of thread \<open>t\<close>;
  the first argument is the thread of the closure called just before, if any.
\<close>

fun emitted_by :: "thread_id option \<Rightarrow> thread_id \<Rightarrow> event list \<Rightarrow> string list" where
  "emitted_by l t [] = []"
| "emitted_by l t (Call e # es) = emitted_by (Some (mThreadId e)) t es"
| "emitted_by l t (Cout txt # es) = (if l = Some t then [txt] else []) @ emitted_by None t es"
| "emitted_by l t (x # es) = emitted_by None t es"

fun last_call :: "thread_id option \<Rightarrow> event list \<Rightarrow> thread_id option" where
  "last_call l [] = l"
| "last_call l (Call e # es) = last_call (Some (mThreadId e)) es"
| "last_call l (x # es) = last_call None es"

section \<open>Predicates on states and orders of calls\<close>

text \<open>An entry of the thread that \<^verbatim>\<open>mCurrentThreadId\<close> names.\<close>

definition owned :: "Log \<Rightarrow> LogEntry \<Rightarrow> bool" where
  "owned s e = (mCurrentThreadId s = Some (mThreadId e))"

text \<open>The text that the closures of a list of entries write, in order.\<close>

definition text_of :: "LogEntry list \<Rightarrow> string" where
  "text_of es = concat (map (\<lambda>e. rendered (mFunctor e)) es)"

text \<open>The order of the closing path on a queue when the iterator is at the end: the entries
  of the head's thread in queue order, then the same on what is left.\<close>

fun grouped :: "LogEntry list \<Rightarrow> LogEntry list" where
  "grouped [] = []"
| "grouped (e # es) =
     filter (\<lambda>x. mThreadId x = mThreadId e) (e # es)
       @ grouped (filter (\<lambda>x. mThreadId x \<noteq> mThreadId e) es)"

text \<open>The order in which the closing path calls the entries of the queue: from the iterator on
  the entries of the owner, then the rest grouped.\<close>

definition closing_order :: "Log \<Rightarrow> LogEntry list" where
  "closing_order s =
     (case mCurrentLog s of
        None \<Rightarrow> grouped (mLogQueue s)
      | Some i \<Rightarrow>
          filter (owned s) (drop i (mLogQueue s))
            @ grouped (take i (mLogQueue s)
                 @ filter (\<lambda>e. \<not> owned s e) (drop i (mLogQueue s))))"

text \<open>The iterator is at the end or designates a node of the queue.\<close>

definition in_range :: "Log \<Rightarrow> bool" where
  "in_range s = (case mCurrentLog s of None \<Rightarrow> True | Some i \<Rightarrow> i < length (mLogQueue s))"

text \<open>The iterator is at the end, or designates a node of the queue whose thread is the owner.\<close>

definition cursor_ok :: "Log \<Rightarrow> bool" where
  "cursor_ok s =
     (case mCurrentLog s of
        None \<Rightarrow> True
      | Some i \<Rightarrow> i < length (mLogQueue s)
          \<and> mCurrentThreadId s = Some (mThreadId (mLogQueue s ! i)))"

text \<open>The entries before the iterator (all of them when it is at the end).\<close>

definition before_cursor :: "Log \<Rightarrow> LogEntry list" where
  "before_cursor s =
     (case mCurrentLog s of None \<Rightarrow> mLogQueue s | Some i \<Rightarrow> take i (mLogQueue s))"

text \<open>The invariant of the reachable states: without owner the queue is empty; the iterator is
  at the end or on an entry of the owner; no entry of the owner stands before the iterator;
  \<^verbatim>\<open>mFlushed\<close> is reset.\<close>

definition log_inv :: "Log \<Rightarrow> bool" where
  "log_inv s =
     ((mCurrentThreadId s = None \<longrightarrow> mLogQueue s = [])
      \<and> cursor_ok s
      \<and> (\<forall>e\<in>set (before_cursor s). \<not> owned s e)
      \<and> \<not> mFlushed s)"

text \<open>Without shutdown, a write to \<^verbatim>\<open>std::cout\<close> has happened only if some called closure
  inserted a flush token.\<close>

definition quiet :: "Log \<Rightarrow> bool" where
  "quiet s = (log_inv s \<and> \<not> mClosing s
     \<and> (sink (effects s) \<noteq> [] \<longrightarrow> (\<exists>e\<in>set (called (effects s)). flushes (mFunctor e))))"


text \<open>The insertions of thread \<open>t\<close> whose closures have been called.\<close>

definition tokens :: "thread_id \<Rightarrow> Log \<Rightarrow> insertion list" where
  "tokens t s = map mFunctor (of_thread t (called (effects s)))"

text \<open>The invariant of the executions without shutdown, for the entries \<open>A t\<close> that each thread
  \<open>t\<close> has appended: called and queued entries of a thread make up its appended entries; the
  texts written at the flushes of a thread are the lines of its called insertions; only the
  owner has text pending, and that text is the buffer; each write belongs to one flushing call.\<close>

definition consistent :: "(thread_id \<Rightarrow> LogEntry list) \<Rightarrow> Log \<Rightarrow> bool" where
  "consistent A s =
     (log_inv s \<and> \<not> mClosing s
      \<and> (\<forall>t. of_thread t (called (effects s)) @ of_thread t (mLogQueue s) = A t)
      \<and> (\<forall>t. emitted_by None t (effects s) = lines_of [] (tokens t s))
      \<and> (\<forall>t. mCurrentThreadId s \<noteq> Some t \<longrightarrow> pending_text [] (tokens t s) = [])
      \<and> mStream s = (case mCurrentThreadId s of None \<Rightarrow> []
                      | Some a \<Rightarrow> pending_text [] (tokens a s))
      \<and> length (sink (effects s))
          = length (filter (\<lambda>e. flushes (mFunctor e)) (called (effects s))))"

section \<open>Facts about the operations\<close>

lemma signals_append [simp]: "signals (xs @ ys) = signals xs + signals ys"
  by (induction xs rule: signals.induct) auto

lemma sink_append [simp]: "sink (xs @ ys) = sink xs @ sink ys"
  by (induction xs rule: sink.induct) auto

lemma called_append [simp]: "called (xs @ ys) = called xs @ called ys"
  by (induction xs rule: called.induct) auto

lemma Log_write_fields:
  "mLogQueue (Log_write tid v s) = mLogQueue s @ [\<lparr>mThreadId = tid, mFunctor = v\<rparr>]"
  "mClosing (Log_write tid v s) = mClosing s"
  "mFlushed (Log_write tid v s) = mFlushed s"
  "mStream (Log_write tid v s) = mStream s"
  "mThreadExited (Log_write tid v s) = mThreadExited s"
  "mCurrentThreadId (Log_write tid v s) =
     (if mCurrentThreadId s = None
      then Some (mThreadId (hd (mLogQueue s @ [\<lparr>mThreadId = tid, mFunctor = v\<rparr>])))
      else mCurrentThreadId s)"
  "mCurrentLog (Log_write tid v s) =
     (if mCurrentThreadId s = None then Some 0
      else if mCurrentThreadId s = Some tid \<and> mCurrentLog s = None
      then Some (length (mLogQueue s))
      else mCurrentLog s)"
  "effects (Log_write tid v s) =
     effects s @ [Lock] @
       (if mCurrentThreadId s = None \<or> mCurrentThreadId s = Some tid then [Notify] else []) @
       [Unlock]"
  by (simp_all add: Log_write_def Let_def begin_it_def)

lemma find_first_None: "find_first P xs = None \<longleftrightarrow> (\<forall>x\<in>set xs. \<not> P x)"
  by (induction xs) auto

lemma find_first_Some:
  "find_first P xs = Some j \<Longrightarrow> j < length xs \<and> P (xs ! j) \<and> (\<forall>k<j. \<not> P (xs ! k))"
proof (induction xs arbitrary: j)
  case Nil
  then show ?case by simp
next
  case (Cons x xs)
  show ?case
  proof (cases "P x")
    case True
    with Cons.prems show ?thesis by simp
  next
    case False
    with Cons.prems obtain j' where j': "find_first P xs = Some j'" "j = Suc j'"
      by auto
    from Cons.IH[OF j'(1)] False j'(2) show ?thesis
      by (auto simp: nth_Cons split: nat.splits)
  qed
qed

lemma find_if_end [simp]: "find_if None P q = None"
  by (simp add: find_if_def)

lemma find_if_Some:
  assumes "find_if (Some i) P q = Some j"
  shows "i \<le> j \<and> j < length q \<and> P (q ! j) \<and> (\<forall>k. i \<le> k \<and> k < j \<longrightarrow> \<not> P (q ! k))"
proof -
  from assms obtain j' where j': "find_first P (drop i q) = Some j'" "j = i + j'"
    by (auto simp: find_if_def)
  from find_first_Some[OF j'(1)]
  have a: "j' < length q - i" and b: "P (drop i q ! j')" and c: "\<forall>k<j'. \<not> P (drop i q ! k)"
    by simp_all
  from a have il: "i \<le> length q" by simp
  have "\<not> P (q ! k)" if "i \<le> k" "k < j" for k
  proof -
    from that j'(2) have "k - i < j'" by simp
    with c have "\<not> P (drop i q ! (k - i))" by blast
    with il that show ?thesis by simp
  qed
  with a b il j'(2) show ?thesis by simp
qed

lemma find_if_None:
  assumes "find_if (Some i) P q = None"
  shows "\<forall>k. i \<le> k \<and> k < length q \<longrightarrow> \<not> P (q ! k)"
proof (intro allI impI)
  fix k assume k: "i \<le> k \<and> k < length q"
  from assms have "\<forall>x\<in>set (drop i q). \<not> P x"
    by (simp add: find_if_def find_first_None)
  moreover from k have "q ! k \<in> set (drop i q)"
  proof -
    from k have "drop i q ! (k - i) = q ! k" "k - i < length (drop i q)" by auto
    then show ?thesis by (metis nth_mem)
  qed
  ultimately show "\<not> P (q ! k)" by blast
qed

lemma serialize_do_while_stop:
  "serialize_body s = Some (brk, s') \<Longrightarrow> brk \<or> mCurrentLog s' = None \<Longrightarrow>
     serialize_do_while s = Some s'"
  by (subst serialize_do_while.simps) auto

section \<open>The closing path\<close>

lemma text_of_simps [simp]:
  "text_of [] = []" "text_of (e # es) = rendered (mFunctor e) @ text_of es"
  "text_of (xs @ ys) = text_of xs @ text_of ys"
  by (simp_all add: text_of_def)

lemma closing_inner_result:
  "mCurrentLog s = Some i \<Longrightarrow> i < length (mLogQueue s) \<Longrightarrow>
   \<exists>s'. closing_inner s = Some s'
     \<and> mLogQueue s' = take i (mLogQueue s) @ filter (\<lambda>e. \<not> owned s e) (drop i (mLogQueue s))
     \<and> mCurrentLog s' = None
     \<and> mCurrentThreadId s' = mCurrentThreadId s
     \<and> effects s' = effects s @ map Call (filter (owned s) (drop i (mLogQueue s)))
     \<and> mStream s' = mStream s @ text_of (filter (owned s) (drop i (mLogQueue s)))
     \<and> mClosing s' = mClosing s \<and> mThreadExited s' = mThreadExited s"
proof (induction s arbitrary: i rule: closing_inner.induct)
  case (1 s)
  let ?q = "mLogQueue s"
  from "1.prems" have d: "drop i ?q = ?q ! i # drop (Suc i) ?q"
    by (simp add: Cons_nth_drop_Suc)
  show ?case
  proof (cases "owned s (?q ! i)")
    case True
    then have ow: "mCurrentThreadId s = Some (mThreadId (?q ! i))" by (simp add: owned_def)
    define s2 where "s2 = (call_functor (?q ! i) s)
        \<lparr>mCurrentLog := erase_it i ?q, mLogQueue := erase i ?q\<rparr>"
    have u: "closing_inner s = closing_inner s2"
      using "1.prems" ow by (subst closing_inner.simps) (simp add: Let_def s2_def)
    have o2: "owned s2 = owned s" by (simp add: owned_def s2_def fun_eq_iff)
    show ?thesis
    proof (cases "Suc i < length ?q")
      case False
      with "1.prems" have l: "drop (Suc i) ?q = []" by simp
      from False have "mCurrentLog s2 = None" by (simp add: s2_def erase_it_eq)
      then have "closing_inner s2 = Some s2" by (subst closing_inner.simps) simp
      with u l d True False show ?thesis
        by (simp add: s2_def erase_def erase_it_eq)
    next
      case lt: True
      then have c2: "mCurrentLog s2 = Some i" and l2: "i < length (mLogQueue s2)"
        using "1.prems" by (simp_all add: s2_def erase_it_eq)
      have "\<exists>s'. closing_inner s2 = Some s'
         \<and> mLogQueue s' = take i (mLogQueue s2) @ filter (\<lambda>e. \<not> owned s2 e) (drop i (mLogQueue s2))
         \<and> mCurrentLog s' = None
         \<and> mCurrentThreadId s' = mCurrentThreadId s2
         \<and> effects s' = effects s2 @ map Call (filter (owned s2) (drop i (mLogQueue s2)))
         \<and> mStream s' = mStream s2 @ text_of (filter (owned s2) (drop i (mLogQueue s2)))
         \<and> mClosing s' = mClosing s2 \<and> mThreadExited s' = mThreadExited s2"
        using "1.IH"(1)[OF "1.prems"(1) _ ow, of i] "1.prems" c2 l2
        by (simp add: s2_def Let_def)
      moreover have "take i (mLogQueue s2) = take i ?q" "drop i (mLogQueue s2) = drop (Suc i) ?q"
        using "1.prems" by (simp_all add: s2_def erase_def)
      ultimately show ?thesis
        using u d True o2 by (simp add: s2_def)
    qed
  next
    case False
    then have ow: "mCurrentThreadId s \<noteq> Some (mThreadId (?q ! i))" by (simp add: owned_def)
    define s2 where "s2 = s\<lparr>mCurrentLog := (if Suc i < length ?q then Some (Suc i) else None)\<rparr>"
    have u: "closing_inner s = closing_inner s2"
      using "1.prems" ow by (subst closing_inner.simps) (simp add: s2_def)
    have o2: "owned s2 = owned s" by (simp add: owned_def s2_def fun_eq_iff)
    show ?thesis
    proof (cases "Suc i < length ?q")
      case nlt: False
      with "1.prems" have l: "drop (Suc i) ?q = []" by simp
      from nlt have "mCurrentLog s2 = None" by (simp add: s2_def)
      then have "closing_inner s2 = Some s2" by (subst closing_inner.simps) simp
      moreover have "take i ?q @ [?q ! i] = ?q"
        using "1.prems" l by (metis append_Nil2 append_take_drop_id d)
      ultimately show ?thesis
        using u l d False by (simp add: s2_def)
    next
      case lt: True
      then have c2: "mCurrentLog s2 = Some (Suc i)" and l2: "Suc i < length (mLogQueue s2)"
        by (simp_all add: s2_def)
      have "\<exists>s'. closing_inner s2 = Some s'
         \<and> mLogQueue s' = take (Suc i) (mLogQueue s2) @ filter (\<lambda>e. \<not> owned s2 e) (drop (Suc i) (mLogQueue s2))
         \<and> mCurrentLog s' = None
         \<and> mCurrentThreadId s' = mCurrentThreadId s2
         \<and> effects s' = effects s2 @ map Call (filter (owned s2) (drop (Suc i) (mLogQueue s2)))
         \<and> mStream s' = mStream s2 @ text_of (filter (owned s2) (drop (Suc i) (mLogQueue s2)))
         \<and> mClosing s' = mClosing s2 \<and> mThreadExited s' = mThreadExited s2"
        using "1.IH"(2)[OF "1.prems"(1) _ ow, of "Suc i"] "1.prems" c2 l2
        by (simp add: s2_def)
      moreover have "take (Suc i) ?q = take i ?q @ [?q ! i]"
        using "1.prems" by (simp add: take_Suc_conv_app_nth)
      ultimately show ?thesis
        using u d False o2 by (simp add: s2_def)
    qed
  qed
qed

lemma closing_outer_from_end:
  "mCurrentLog s = None \<Longrightarrow>
   \<exists>s'. closing_outer s = Some s' \<and> mLogQueue s' = [] \<and> mCurrentLog s' = None
     \<and> effects s' = effects s @ map Call (grouped (mLogQueue s))
     \<and> mStream s' = mStream s @ text_of (grouped (mLogQueue s))
     \<and> mClosing s' = mClosing s \<and> mThreadExited s' = mThreadExited s"
proof (induction "length (mLogQueue s)" arbitrary: s rule: less_induct)
  case less
  show ?case
  proof (cases "mLogQueue s")
    case Nil
    then have "closing_outer s = Some s" by (subst closing_outer.simps) simp
    with Nil less.prems show ?thesis by simp
  next
    case (Cons e es)
    define s1 where "s1 = s\<lparr>mCurrentLog := begin_it (mLogQueue s),
        mCurrentThreadId := Some (mThreadId (hd (mLogQueue s)))\<rparr>"
    have c1: "mCurrentLog s1 = Some 0" and l1: "0 < length (mLogQueue s1)"
      and q1: "mLogQueue s1 = e # es"
      using Cons by (simp_all add: s1_def begin_it_def)
    have o1: "owned s1 = (\<lambda>x. mThreadId x = mThreadId e)"
      using Cons by (auto simp: owned_def s1_def fun_eq_iff)
    have f1: "effects s1 = effects s" "mStream s1 = mStream s" "mClosing s1 = mClosing s"
      "mThreadExited s1 = mThreadExited s"
      by (simp_all add: s1_def)
    have "\<exists>s2. closing_inner s1 = Some s2
      \<and> mLogQueue s2 = filter (\<lambda>x. mThreadId x \<noteq> mThreadId e) es
      \<and> mCurrentLog s2 = None
      \<and> effects s2 = effects s @ map Call (filter (\<lambda>x. mThreadId x = mThreadId e) (e # es))
      \<and> mStream s2 = mStream s @ text_of (filter (\<lambda>x. mThreadId x = mThreadId e) (e # es))
      \<and> mClosing s2 = mClosing s \<and> mThreadExited s2 = mThreadExited s"
      using closing_inner_result[OF c1 l1] unfolding q1 o1 f1 by simp blast
    then obtain s2 where
      r: "closing_inner s1 = Some s2"
      and q2: "mLogQueue s2 = filter (\<lambda>x. mThreadId x \<noteq> mThreadId e) es"
      and c2: "mCurrentLog s2 = None"
      and e2: "effects s2 = effects s @ map Call (filter (\<lambda>x. mThreadId x = mThreadId e) (e # es))"
      and m2: "mStream s2 = mStream s @ text_of (filter (\<lambda>x. mThreadId x = mThreadId e) (e # es))"
      and f2: "mClosing s2 = mClosing s" "mThreadExited s2 = mThreadExited s"
      by blast
    have u: "closing_outer s = closing_outer s2"
      using Cons less.prems r by (subst closing_outer.simps) (simp add: s1_def)
    have "length (mLogQueue s2) < length (mLogQueue s)"
      using q2 Cons by (simp add: le_imp_less_Suc)
    from less.hyps[OF this c2] obtain s' where
      "closing_outer s2 = Some s'" "mLogQueue s' = []" "mCurrentLog s' = None"
      "effects s' = effects s2 @ map Call (grouped (mLogQueue s2))"
      "mStream s' = mStream s2 @ text_of (grouped (mLogQueue s2))"
      "mClosing s' = mClosing s2" "mThreadExited s' = mThreadExited s2"
      by blast
    with u q2 e2 m2 f2 Cons show ?thesis by simp
  qed
qed

lemma closing_outer_result:
  assumes "in_range s"
  shows "\<exists>s'. closing_outer s = Some s' \<and> mLogQueue s' = [] \<and> mCurrentLog s' = None
     \<and> effects s' = effects s @ map Call (closing_order s)
     \<and> mStream s' = mStream s @ text_of (closing_order s)
     \<and> mClosing s' = mClosing s \<and> mThreadExited s' = mThreadExited s"
proof (cases "mCurrentLog s")
  case None
  with closing_outer_from_end[OF None] show ?thesis by (simp add: closing_order_def)
next
  case (Some i)
  with assms have l: "i < length (mLogQueue s)" by (simp add: in_range_def)
  from closing_inner_result[OF Some l] obtain s2 where
    r: "closing_inner s = Some s2"
    and q2: "mLogQueue s2 = take i (mLogQueue s) @ filter (\<lambda>e. \<not> owned s e) (drop i (mLogQueue s))"
    and c2: "mCurrentLog s2 = None"
    and e2: "effects s2 = effects s @ map Call (filter (owned s) (drop i (mLogQueue s)))"
    and m2: "mStream s2 = mStream s @ text_of (filter (owned s) (drop i (mLogQueue s)))"
    and f2: "mClosing s2 = mClosing s" "mThreadExited s2 = mThreadExited s"
    by blast
  have u: "closing_outer s = closing_outer s2"
    using Some l r by (subst closing_outer.simps) auto
  from closing_outer_from_end[OF c2] obtain s' where
    "closing_outer s2 = Some s'" "mLogQueue s' = []" "mCurrentLog s' = None"
    "effects s' = effects s2 @ map Call (grouped (mLogQueue s2))"
    "mStream s' = mStream s2 @ text_of (grouped (mLogQueue s2))"
    "mClosing s' = mClosing s2" "mThreadExited s' = mThreadExited s2"
    by blast
  with u q2 e2 m2 f2 Some show ?thesis by (simp add: closing_order_def)
qed

lemma mset_grouped: "mset (grouped q) = mset q"
proof (induction q rule: grouped.induct)
  case 1
  show ?case by simp
next
  case (2 e es)
  then show ?case by (simp add: multiset_partition[symmetric])
qed

lemma set_grouped: "set (grouped q) = set q"
  by (metis mset_grouped set_mset_mset)

lemma filter_grouped:
  "filter (\<lambda>x. mThreadId x = t) (grouped q) = filter (\<lambda>x. mThreadId x = t) q"
proof (induction q rule: grouped.induct)
  case 1
  show ?case by simp
next
  case (2 e es)
  show ?case
  proof (cases "t = mThreadId e")
    case True
    have "filter (\<lambda>x. mThreadId x = t) (filter (\<lambda>x. mThreadId x \<noteq> mThreadId e) es) = []"
      using True by (simp add: filter_empty_conv)
    moreover have "filter (\<lambda>x. mThreadId x = t) (filter (\<lambda>x. mThreadId x = mThreadId e) es)
        = filter (\<lambda>x. mThreadId x = t) es"
      using True by (simp cong: conj_cong)
    ultimately show ?thesis using True 2 by simp
  next
    case False
    have "filter (\<lambda>x. mThreadId x = t) (filter (\<lambda>x. mThreadId x = mThreadId e) es) = []"
      using False by (auto simp: filter_empty_conv)
    moreover have "filter (\<lambda>x. mThreadId x = t) (filter (\<lambda>x. mThreadId x \<noteq> mThreadId e) es)
        = filter (\<lambda>x. mThreadId x = t) es"
      using False by (auto intro: filter_cong)
    ultimately show ?thesis using False 2 by simp
  qed
qed

lemma remdups_adj_block:
  assumes "\<forall>x\<in>set xs. f x = a" "xs \<noteq> []" "\<forall>y\<in>set ys. f y \<noteq> a"
  shows "remdups_adj (map f (xs @ ys)) = a # remdups_adj (map f ys)"
  using assms
proof (induction xs)
  case Nil
  then show ?case by simp
next
  case (Cons x xs)
  show ?case
  proof (cases xs)
    case Nil
    with Cons.prems show ?thesis by (cases ys) auto
  next
    case (Cons x' xs')
    with Cons.prems Cons.IH show ?thesis by auto
  qed
qed

lemma blocks_grouped: "distinct (remdups_adj (map mThreadId (grouped q)))"
proof (induction q rule: grouped.induct)
  case 1
  show ?case by simp
next
  case (2 e es)
  define xs where "xs = filter (\<lambda>x. mThreadId x = mThreadId e) (e # es)"
  define ys where "ys = grouped (filter (\<lambda>x. mThreadId x \<noteq> mThreadId e) es)"
  have g: "grouped (e # es) = xs @ ys" by (simp add: xs_def ys_def)
  have x: "\<forall>x\<in>set xs. mThreadId x = mThreadId e" and ne: "xs \<noteq> []"
    by (simp_all add: xs_def)
  have y: "\<forall>y\<in>set ys. mThreadId y \<noteq> mThreadId e" by (simp add: ys_def set_grouped)
  have r: "remdups_adj (map mThreadId (xs @ ys)) = mThreadId e # remdups_adj (map mThreadId ys)"
    by (rule remdups_adj_block[OF x ne y])
  have "mThreadId e \<notin> set (map mThreadId ys)" using y by force
  then have n: "mThreadId e \<notin> set (remdups_adj (map mThreadId ys))" by simp
  have d: "distinct (remdups_adj (map mThreadId ys))" using 2 by (simp add: ys_def)
  show ?case unfolding g r using n d by simp
qed

section \<open>The drain loop keeps an invariant\<close>

lemma erase_Nil_iff: "i < length q \<Longrightarrow> erase i q = [] \<longleftrightarrow> length q = Suc 0"
proof -
  assume "i < length q"
  then have "length (erase i q) = length q - 1" by simp
  then show ?thesis by (metis One_nat_def Suc_pred \<open>i < length q\<close> diff_Suc_1 length_0_conv less_nat_zero_code not_gr_zero)
qed

lemma serialize_body_some:
  assumes "mCurrentLog s = Some i" "i < length (mLogQueue s)"
  shows "\<exists>b s'. serialize_body s = Some (b, s') \<and> (b \<longrightarrow> mCurrentLog s' = None) \<and> cursor_ok s'"
proof (cases "mFlushed (call_functor (mLogQueue s ! i) s)")
  case True
  with assms show ?thesis
    by (auto simp: serialize_body_def Let_def begin_it_def cursor_ok_def hd_conv_nth erase_Nil_iff)
next
  case False
  define q where "q = erase i (mLogQueue s)"
  define P where "P = (\<lambda>entry::LogEntry. mCurrentThreadId s = Some (mThreadId entry))"
  define c where "c = find_if (erase_it i (mLogQueue s)) P q"
  define s' where "s' = (call_functor (mLogQueue s ! i) s)\<lparr>mLogQueue := q, mCurrentLog := c\<rparr>"
  have b: "serialize_body s = Some (False, s')"
    using assms False by (simp add: serialize_body_def Let_def s'_def c_def P_def q_def)
  have "cursor_ok s'"
  proof (cases c)
    case None
    then show ?thesis by (simp add: cursor_ok_def s'_def)
  next
    case (Some j)
    then have "find_if (Some i) P q = Some j"
      by (cases "Suc i < length (mLogQueue s)") (simp_all add: c_def erase_it_eq)
    from find_if_Some[OF this] have "j < length q" "P (q ! j)" by blast+
    with Some show ?thesis by (simp add: cursor_ok_def s'_def P_def)
  qed
  with b show ?thesis by blast
qed

lemma serialize_do_while_rule:
  assumes "I s" and "mCurrentLog s = Some i" and "i < length (mLogQueue s)"
    and pres: "\<And>s i b s'. I s \<Longrightarrow> mCurrentLog s = Some i \<Longrightarrow> i < length (mLogQueue s) \<Longrightarrow>
        serialize_body s = Some (b, s') \<Longrightarrow> I s'"
  shows "\<exists>s'. serialize_do_while s = Some s' \<and> I s' \<and> mCurrentLog s' = None"
  using assms(1-3)
proof (induction s arbitrary: i rule: serialize_do_while.induct)
  case (1 s)
  from serialize_body_some[OF "1.prems"(2,3)] obtain b s' where
    b: "serialize_body s = Some (b, s')" and e: "b \<longrightarrow> mCurrentLog s' = None"
    and ok: "cursor_ok s'"
    by blast
  from pres[OF "1.prems" b] have I': "I s'" .
  show ?case
  proof (cases "mCurrentLog s'")
    case None
    with serialize_do_while_stop[OF b] I' show ?thesis by simp
  next
    case (Some j)
    with e have nb: "\<not> b" by auto
    from ok Some have j: "j < length (mLogQueue s')"
      and o: "mCurrentThreadId s' = Some (mThreadId (mLogQueue s' ! j))"
      by (simp_all add: cursor_ok_def)
    have u: "serialize_do_while s = serialize_do_while s'"
      using b nb Some j o by (subst serialize_do_while.simps) simp
    from j have nj: "\<not> length (mLogQueue s') \<le> j" by simp
    from "1.IH"[OF b refl nb Some nj o I' Some j] u show ?thesis by simp
  qed
qed

section \<open>Invariants of the reachable states\<close>

lemma owned_effect [simp]:
  "owned (effect e s) = owned s" "owned (call_functor x s) = owned s" "owned (flush s) = owned s"
  by (simp_all add: owned_def fun_eq_iff)

lemma cursor_ok_in_range: "cursor_ok s \<Longrightarrow> in_range s"
  by (auto simp: cursor_ok_def in_range_def split: option.splits)

lemma cursor_ok_init: "cursor_ok Log_init"
  by (simp add: cursor_ok_def Log_init_def)

lemma cursor_ok_write: "cursor_ok s \<Longrightarrow> cursor_ok (Log_write tid v s)"
  by (auto simp: cursor_ok_def Log_write_fields nth_append hd_append hd_conv_nth
      split: option.splits)

lemma cursor_ok_close: "cursor_ok (request_close s) = cursor_ok s"
  by (simp add: cursor_ok_def request_close_def cong: option.case_cong)

lemma serialize_pass_closing:
  assumes "mClosing s" "in_range s"
  shows "\<exists>s'. serialize_pass s = Some s' \<and> mLogQueue s' = [] \<and> mCurrentLog s' = None
     \<and> \<not> mFlushed s' \<and> mStream s' = [] \<and> mThreadExited s' \<and> mClosing s'
     \<and> effects s' = effects s @ [Lock] @ map Call (closing_order s)
          @ [Cout (mStream s @ text_of (closing_order s)), Unlock]"
proof -
  have r: "in_range (effect Lock s)"
    using assms(2) by (simp add: in_range_def cong: option.case_cong)
  have o: "closing_order (effect Lock s) = closing_order s"
    by (simp add: closing_order_def cong: option.case_cong)
  from closing_outer_result[OF r] obtain s1 where
    "closing_outer (effect Lock s) = Some s1" "mLogQueue s1 = []" "mCurrentLog s1 = None"
    "effects s1 = effects (effect Lock s) @ map Call (closing_order (effect Lock s))"
    "mStream s1 = mStream (effect Lock s) @ text_of (closing_order (effect Lock s))"
    "mClosing s1 = mClosing (effect Lock s)"
    by blast
  with assms(1) o show ?thesis by (simp add: serialize_pass_def)
qed

lemma serialize_pass_normal:
  assumes "\<not> mClosing s" "mCurrentLog s = Some i" "i < length (mLogQueue s)"
    and "I (effect Lock s)"
    and pres: "\<And>s i b s'. I s \<Longrightarrow> mCurrentLog s = Some i \<Longrightarrow> i < length (mLogQueue s) \<Longrightarrow>
        serialize_body s = Some (b, s') \<Longrightarrow> I s'"
  shows "\<exists>s1. serialize_pass s = Some (effect Unlock s1) \<and> I s1 \<and> mCurrentLog s1 = None"
proof -
  have "mCurrentLog (effect Lock s) = Some i" "i < length (mLogQueue (effect Lock s))"
    using assms(2,3) by simp_all
  then have "\<exists>s1. serialize_do_while (effect Lock s) = Some s1 \<and> I s1 \<and> mCurrentLog s1 = None"
    by (rule serialize_do_while_rule[of I, OF assms(4)]) (rule pres; assumption)
  then obtain s1 where
    "serialize_do_while (effect Lock s) = Some s1" "I s1" "mCurrentLog s1 = None"
    by blast
  with assms(1) show ?thesis by (auto simp: serialize_pass_def)
qed

lemma cursor_ok_worker:
  assumes "cursor_ok s"
  shows "\<exists>s'. worker_step s = Some s' \<and> cursor_ok s'"
proof (cases "mThreadExited s \<or> \<not> wait_pred s")
  case True
  with assms show ?thesis by (auto simp: worker_step_def)
next
  case False
  then have w: "worker_step s = serialize_pass s" by (simp add: worker_step_def)
  show ?thesis
  proof (cases "mClosing s")
    case True
    from serialize_pass_closing[OF True cursor_ok_in_range[OF assms]] w show ?thesis
      by (auto simp: cursor_ok_def)
  next
    case nc: False
    with False obtain i where i: "mCurrentLog s = Some i" by (auto simp: wait_pred_def)
    with assms have l: "i < length (mLogQueue s)" by (simp add: cursor_ok_def)
    have "\<exists>s1. serialize_pass s = Some (effect Unlock s1) \<and> True \<and> mCurrentLog s1 = None"
      by (rule serialize_pass_normal[of s i "\<lambda>_. True", OF nc i l]) simp_all
    then obtain s1 where
      "serialize_pass s = Some (effect Unlock s1)" "mCurrentLog s1 = None"
      by blast
    with w show ?thesis by (simp add: cursor_ok_def)
  qed
qed

lemma run_append: "run (as @ bs) s = (case run as s of None \<Rightarrow> None | Some s' \<Rightarrow> run bs s')"
  by (induction as arbitrary: s) (auto split: option.splits)

lemma cursor_ok_run: "cursor_ok s \<Longrightarrow> \<exists>s'. run acts s = Some s' \<and> cursor_ok s'"
proof (induction acts arbitrary: s)
  case Nil
  then show ?case by simp
next
  case (Cons a acts)
  have "\<exists>s1. step a s = Some s1 \<and> cursor_ok s1"
  proof (cases a)
    case (Append tid v)
    with Cons.prems show ?thesis by (simp add: cursor_ok_write)
  next
    case Worker
    with cursor_ok_worker[OF Cons.prems] show ?thesis by simp
  next
    case Close
    with Cons.prems show ?thesis by (simp add: cursor_ok_close)
  qed
  then obtain s1 where "step a s = Some s1" "cursor_ok s1" by blast
  with Cons.IH[of s1] show ?case by simp
qed

lemma log_inv_effect [simp]: "log_inv (effect e s) = log_inv s"
  by (simp add: log_inv_def cursor_ok_def before_cursor_def cong: option.case_cong)

lemma log_inv_init: "log_inv Log_init"
  by (simp add: log_inv_def cursor_ok_def before_cursor_def Log_init_def)

lemma log_inv_close: "log_inv (request_close s) = log_inv s"
  by (simp add: log_inv_def cursor_ok_def before_cursor_def request_close_def owned_def
      cong: option.case_cong)

lemma log_inv_write:
  assumes "log_inv s"
  shows "log_inv (Log_write tid v s)"
proof -
  let ?e = "\<lparr>mThreadId = tid, mFunctor = v\<rparr>"
  from assms have a: "mCurrentThreadId s = None \<longrightarrow> mLogQueue s = []"
    and c: "cursor_ok s" and b: "\<forall>e\<in>set (before_cursor s). \<not> owned s e"
    and f: "\<not> mFlushed s"
    by (simp_all add: log_inv_def)
  show ?thesis
  proof (cases "mCurrentThreadId s")
    case None
    with a have "mLogQueue s = []" by simp
    with None f show ?thesis
      by (simp add: log_inv_def cursor_ok_def before_cursor_def Log_write_fields)
  next
    case (Some a)
    show ?thesis
    proof (cases "mCurrentLog s")
      case None
      with b have "\<forall>e\<in>set (mLogQueue s). \<not> owned s e" by (simp add: before_cursor_def)
      with Some None f show ?thesis
        by (auto simp: log_inv_def cursor_ok_def before_cursor_def Log_write_fields owned_def)
    next
      case (Some i)
      with c b have "i < length (mLogQueue s)" "\<forall>e\<in>set (take i (mLogQueue s)). \<not> owned s e"
        by (simp_all add: cursor_ok_def before_cursor_def)
      with Some \<open>mCurrentThreadId s = Some a\<close> c f show ?thesis
        by (auto simp: log_inv_def cursor_ok_def before_cursor_def Log_write_fields owned_def
            nth_append)
    qed
  qed
qed

lemma log_inv_body:
  assumes "log_inv s" "mCurrentLog s = Some i" "i < length (mLogQueue s)"
    "serialize_body s = Some (b, s')"
  shows "log_inv s'"
proof -
  from assms(1,2) have o: "mCurrentThreadId s = Some (mThreadId (mLogQueue s ! i))"
    and bf: "\<forall>e\<in>set (take i (mLogQueue s)). \<not> owned s e" and f: "\<not> mFlushed s"
    by (simp_all add: log_inv_def cursor_ok_def before_cursor_def)
  show ?thesis
  proof (cases "flushes (mFunctor (mLogQueue s ! i))")
    case True
    show ?thesis
    proof (cases "erase i (mLogQueue s) = []")
      case e: True
      with assms(2-4) True have "mLogQueue s' = []" "mCurrentLog s' = None" "\<not> mFlushed s'"
        by (auto simp: serialize_body_def Let_def begin_it_def)
      then show ?thesis by (simp add: log_inv_def cursor_ok_def before_cursor_def)
    next
      case ne: False
      with assms(2-4) True have "mLogQueue s' \<noteq> []" "mCurrentLog s' = Some 0" "\<not> mFlushed s'"
        "mCurrentThreadId s' = Some (mThreadId (hd (mLogQueue s')))"
        by (auto simp: serialize_body_def Let_def begin_it_def)
      then show ?thesis
        by (simp add: log_inv_def cursor_ok_def before_cursor_def hd_conv_nth)
    qed
  next
    case False
    define q where "q = erase i (mLogQueue s)"
    define P where "P = (\<lambda>entry::LogEntry. mCurrentThreadId s = Some (mThreadId entry))"
    define c where "c = find_if (erase_it i (mLogQueue s)) P q"
    have s': "s' = (call_functor (mLogQueue s ! i) s)\<lparr>mLogQueue := q, mCurrentLog := c\<rparr>"
      using assms(2-4) False f
      by (simp add: serialize_body_def Let_def c_def P_def q_def)
    have ow: "owned s' = P" by (simp add: s' owned_def P_def fun_eq_iff)
    have fs: "mLogQueue s' = q" "mCurrentLog s' = c" "mCurrentThreadId s' = mCurrentThreadId s"
      by (simp_all add: s')
    have tk: "take i q = take i (mLogQueue s)" using assms(3) by (simp add: q_def erase_def)
    have lo: "\<not> P (q ! k)" if "k < i" "k < length q" for k
    proof -
      from that tk have "q ! k = take i (mLogQueue s) ! k" by (metis nth_take)
      moreover from that assms(3) have "k < length (take i (mLogQueue s))" by simp
      then have "take i (mLogQueue s) ! k \<in> set (take i (mLogQueue s))"
        by (rule nth_mem)
      ultimately show ?thesis using bf by (simp add: owned_def P_def)
    qed
    have "cursor_ok s' \<and> (\<forall>e\<in>set (before_cursor s'). \<not> owned s' e)"
    proof (cases c)
      case None
      have "\<not> P (q ! k)" if "k < length q" for k
      proof (cases "k < i")
        case True
        with lo that show ?thesis by simp
      next
        case nk: False
        show ?thesis
        proof (cases "Suc i < length (mLogQueue s)")
          case True
          with None have "find_if (Some i) P q = None" by (simp add: c_def erase_it_eq)
          from find_if_None[OF this] that nk show ?thesis by simp
        next
          case False
          with assms(3) have "length q \<le> i" by (simp add: q_def)
          with that nk show ?thesis by simp
        qed
      qed
      then have "\<forall>e\<in>set q. \<not> P e" by (auto simp: in_set_conv_nth)
      with None show ?thesis by (simp add: cursor_ok_def before_cursor_def fs ow)
    next
      case (Some j)
      then have "find_if (Some i) P q = Some j"
        by (cases "Suc i < length (mLogQueue s)") (simp_all add: c_def erase_it_eq)
      from find_if_Some[OF this]
      have j: "i \<le> j" "j < length q" "P (q ! j)" "\<And>k. i \<le> k \<Longrightarrow> k < j \<Longrightarrow> \<not> P (q ! k)"
        by blast+
      have "\<not> P (q ! k)" if "k < j" for k
        using lo[of k] j(4)[of k] j(2) that by (cases "k < i") simp_all
      then have "\<forall>e\<in>set (take j q). \<not> P e"
        using j(2) by (auto simp: in_set_conv_nth)
      with Some j(2,3) show ?thesis
        by (simp add: cursor_ok_def before_cursor_def fs ow) (simp add: P_def)
    qed
    moreover have "\<not> mFlushed s'" using f False by (simp add: s')
    moreover have "mCurrentThreadId s' \<noteq> None" using o by (simp add: s')
    ultimately show ?thesis by (auto simp: log_inv_def)
  qed
qed

lemma log_inv_worker:
  assumes "log_inv s"
  shows "\<exists>s'. worker_step s = Some s' \<and> log_inv s'"
proof (cases "mThreadExited s \<or> \<not> wait_pred s")
  case True
  with assms show ?thesis by (auto simp: worker_step_def)
next
  case False
  then have w: "worker_step s = serialize_pass s" by (simp add: worker_step_def)
  from assms have ok: "cursor_ok s" by (simp add: log_inv_def)
  show ?thesis
  proof (cases "mClosing s")
    case True
    from serialize_pass_closing[OF True cursor_ok_in_range[OF ok]] w show ?thesis
      by (auto simp: log_inv_def cursor_ok_def before_cursor_def)
  next
    case nc: False
    with False obtain i where i: "mCurrentLog s = Some i" by (auto simp: wait_pred_def)
    with ok have l: "i < length (mLogQueue s)" by (simp add: cursor_ok_def)
    have "log_inv (effect Lock s)" using assms by simp
    then have "\<exists>s1. serialize_pass s = Some (effect Unlock s1) \<and> log_inv s1 \<and> mCurrentLog s1 = None"
      by (rule serialize_pass_normal[of s i log_inv, OF nc i l]) (rule log_inv_body; assumption)
    with w show ?thesis by auto
  qed
qed

lemma log_inv_step: "log_inv s \<Longrightarrow> \<exists>s'. step a s = Some s' \<and> log_inv s'"
  by (cases a) (simp_all add: log_inv_write log_inv_worker log_inv_close)

lemma log_inv_run: "log_inv s \<Longrightarrow> \<exists>s'. run acts s = Some s' \<and> log_inv s'"
proof (induction acts arbitrary: s)
  case Nil
  then show ?case by simp
next
  case (Cons a acts)
  from log_inv_step[OF Cons.prems] obtain s1 where "step a s = Some s1" "log_inv s1" by blast
  with Cons.IH[of s1] show ?case by simp
qed

lemma reachable_inv: "run acts Log_init = Some s \<Longrightarrow> log_inv s"
  using log_inv_run[OF log_inv_init, of acts] by auto

section \<open>The order of the closing path in reachable states\<close>

lemma closing_order_inv:
  assumes "log_inv s"
  shows "closing_order s = filter (owned s) (mLogQueue s)
           @ grouped (filter (\<lambda>e. \<not> owned s e) (mLogQueue s))"
proof (cases "mCurrentLog s")
  case None
  with assms have "\<forall>e\<in>set (mLogQueue s). \<not> owned s e"
    by (simp add: log_inv_def before_cursor_def)
  then have "filter (owned s) (mLogQueue s) = []"
    "filter (\<lambda>e. \<not> owned s e) (mLogQueue s) = mLogQueue s"
    by (simp_all add: filter_empty_conv filter_id_conv)
  with None show ?thesis by (simp add: closing_order_def)
next
  case (Some i)
  with assms have b: "\<forall>e\<in>set (take i (mLogQueue s)). \<not> owned s e"
    by (simp add: log_inv_def before_cursor_def)
  have q: "mLogQueue s = take i (mLogQueue s) @ drop i (mLogQueue s)" by simp
  have "filter (owned s) (mLogQueue s) = filter (owned s) (drop i (mLogQueue s))"
    by (subst q, subst filter_append) (use b in \<open>simp add: filter_empty_conv\<close>)
  moreover have "filter (\<lambda>e. \<not> owned s e) (mLogQueue s)
      = take i (mLogQueue s) @ filter (\<lambda>e. \<not> owned s e) (drop i (mLogQueue s))"
    by (subst q, subst filter_append) (use b in \<open>simp add: filter_id_conv\<close>)
  ultimately show ?thesis using Some by (simp add: closing_order_def)
qed

lemma closing_order_props:
  assumes "log_inv s"
  shows "mset (closing_order s) = mset (mLogQueue s)"
    and "filter (\<lambda>e. mThreadId e = t) (closing_order s) = filter (\<lambda>e. mThreadId e = t) (mLogQueue s)"
    and "distinct (remdups_adj (map mThreadId (closing_order s)))"
proof -
  let ?q = "mLogQueue s"
  let ?xs = "filter (owned s) ?q"
  let ?ys = "grouped (filter (\<lambda>e. \<not> owned s e) ?q)"
  note co = closing_order_inv[OF assms]
  show "mset (closing_order s) = mset ?q"
    unfolding co by (simp add: mset_grouped multiset_partition[symmetric])
  show "filter (\<lambda>e. mThreadId e = t) (closing_order s) = filter (\<lambda>e. mThreadId e = t) ?q"
  proof (cases "mCurrentThreadId s = Some t")
    case True
    then have o: "owned s = (\<lambda>e. mThreadId e = t)" by (auto simp: owned_def fun_eq_iff)
    show ?thesis unfolding co by (simp add: filter_grouped o filter_empty_conv)
  next
    case False
    then have n: "mThreadId e = t \<Longrightarrow> \<not> owned s e" for e by (auto simp: owned_def)
    have "filter (\<lambda>e. mThreadId e = t) ?xs = []"
      using n by (auto simp: filter_empty_conv)
    moreover have "filter (\<lambda>e. mThreadId e = t) (filter (\<lambda>e. \<not> owned s e) ?q)
        = filter (\<lambda>e. mThreadId e = t) ?q"
      using n by (auto intro: filter_cong)
    ultimately show ?thesis unfolding co by (simp add: filter_grouped)
  qed
  show "distinct (remdups_adj (map mThreadId (closing_order s)))"
  proof (cases "?xs = []")
    case True
    then show ?thesis unfolding co by (simp add: blocks_grouped)
  next
    case False
    then obtain a where a: "mCurrentThreadId s = Some a"
      by (cases "mCurrentThreadId s") (auto simp: owned_def filter_empty_conv)
    have x: "\<forall>x\<in>set ?xs. mThreadId x = a" using a by (auto simp: owned_def)
    have y: "\<forall>y\<in>set ?ys. mThreadId y \<noteq> a" using a by (auto simp: set_grouped owned_def)
    have r: "remdups_adj (map mThreadId (?xs @ ?ys)) = a # remdups_adj (map mThreadId ?ys)"
      by (rule remdups_adj_block[OF x False y])
    have "a \<notin> set (map mThreadId ?ys)" using y by force
    then have "a \<notin> set (remdups_adj (map mThreadId ?ys))" by simp
    then show ?thesis unfolding co r by (simp add: blocks_grouped)
  qed
qed

lemma serialize_body_effects:
  assumes "serialize_body s = Some (b, s')"
  shows "\<exists>i. mCurrentLog s = Some i \<and> i < length (mLogQueue s)
     \<and> effects s' = effects s @ Call (mLogQueue s ! i)
         # (if mFlushed s \<or> flushes (mFunctor (mLogQueue s ! i))
            then [Cout (mStream s @ rendered (mFunctor (mLogQueue s ! i)))] else [])
     \<and> mStream s' = (if mFlushed s \<or> flushes (mFunctor (mLogQueue s ! i)) then []
          else mStream s @ rendered (mFunctor (mLogQueue s ! i)))
     \<and> mLogQueue s' = erase i (mLogQueue s)
     \<and> (mFlushed s \<or> flushes (mFunctor (mLogQueue s ! i))
          \<or> mCurrentThreadId s' = mCurrentThreadId s)
     \<and> mClosing s' = mClosing s \<and> mThreadExited s' = mThreadExited s"
proof -
  from assms obtain i where i: "mCurrentLog s = Some i" "i < length (mLogQueue s)"
    by (cases "mCurrentLog s") (auto simp: serialize_body_def split: if_splits)
  let ?e = "mLogQueue s ! i"
  show ?thesis
  proof (cases "mFlushed s \<or> flushes (mFunctor ?e)")
    case True
    then have fl: "mFlushed (call_functor ?e s)" by simp
    show ?thesis
    proof (cases "erase i (mLogQueue s) = []")
      case e: True
      with assms i fl have "s' = (flush (call_functor ?e s))
          \<lparr>mLogQueue := erase i (mLogQueue s), mCurrentLog := None, mCurrentThreadId := None\<rparr>"
        by (simp add: serialize_body_def Let_def begin_it_def)
      with i True show ?thesis by auto
    next
      case ne: False
      with assms i fl have "s' = (flush (call_functor ?e s))
          \<lparr>mLogQueue := erase i (mLogQueue s), mCurrentLog := Some 0,
            mCurrentThreadId := Some (mThreadId (hd (erase i (mLogQueue s))))\<rparr>"
        by (simp add: serialize_body_def Let_def begin_it_def)
      with i True show ?thesis by auto
    qed
  next
    case False
    then have fl: "\<not> mFlushed (call_functor ?e s)" by simp
    with assms i have "s' = (call_functor ?e s)
        \<lparr>mLogQueue := erase i (mLogQueue s),
          mCurrentLog := find_if (erase_it i (mLogQueue s))
            (\<lambda>entry. mCurrentThreadId s = Some (mThreadId entry)) (erase i (mLogQueue s))\<rparr>"
      by (simp add: serialize_body_def Let_def)
    with i False show ?thesis by simp
  qed
qed

section \<open>What the sink receives, thread by thread\<close>

lemma lines_of_snoc:
  "lines_of acc (vs @ [v]) =
     lines_of acc vs @ (if flushes v then [pending_text acc vs @ rendered v] else [])"
  by (induction acc vs rule: lines_of.induct) auto

lemma pending_text_snoc:
  "pending_text acc (vs @ [v]) = (if flushes v then [] else pending_text acc vs @ rendered v)"
  by (induction acc vs rule: pending_text.induct) auto

lemma emitted_by_append:
  "emitted_by l t (xs @ ys) = emitted_by l t xs @ emitted_by (last_call l xs) t ys"
  by (induction l t xs rule: emitted_by.induct) auto

lemma of_thread_simps [simp]:
  "of_thread t [] = []"
  "of_thread t (e # es) = (if mThreadId e = t then e # of_thread t es else of_thread t es)"
  "of_thread t (xs @ ys) = of_thread t xs @ of_thread t ys"
  by (simp_all add: of_thread_def)

lemma of_thread_erase_other:
  "i < length q \<Longrightarrow> mThreadId (q ! i) \<noteq> t \<Longrightarrow> of_thread t (erase i q) = of_thread t q"
proof -
  assume a: "i < length q" "mThreadId (q ! i) \<noteq> t"
  then have "q = take i q @ q ! i # drop (Suc i) q" by (simp add: id_take_nth_drop)
  then have "of_thread t q = of_thread t (take i q @ q ! i # drop (Suc i) q)" by simp
  with a(2) show ?thesis by (simp add: erase_def)
qed

lemma of_thread_erase_own:
  assumes "i < length q" "\<forall>e\<in>set (take i q). mThreadId e \<noteq> mThreadId (q ! i)"
  shows "of_thread (mThreadId (q ! i)) q = q ! i # of_thread (mThreadId (q ! i)) (erase i q)"
proof -
  let ?t = "mThreadId (q ! i)"
  from assms(1) have "q = take i q @ q ! i # drop (Suc i) q" by (simp add: id_take_nth_drop)
  then have "of_thread ?t q = of_thread ?t (take i q @ q ! i # drop (Suc i) q)" by simp
  moreover from assms(2) have "of_thread ?t (take i q) = []"
    by (simp add: of_thread_def filter_empty_conv)
  ultimately show ?thesis by (simp add: erase_def)
qed

lemma tokens_effect [simp]:
  "tokens t (effect Lock s) = tokens t s"
  "tokens t (effect Unlock s) = tokens t s"
  "tokens t (effect Notify s) = tokens t s"
  by (simp_all add: tokens_def)

lemma consistent_effect:
  "consistent A (effect Lock s) = consistent A s"
  "consistent A (effect Unlock s) = consistent A s"
  "consistent A (effect Notify s) = consistent A s"
  by (simp_all add: consistent_def emitted_by_append cong: option.case_cong)

lemma consistent_body:
  assumes "consistent A s" "mCurrentLog s = Some i" "i < length (mLogQueue s)"
    "serialize_body s = Some (b, s')"
  shows "consistent A s'"
proof -
  let ?q = "mLogQueue s"
  let ?e = "?q ! i"
  let ?a = "mThreadId ?e"
  let ?c = "called (effects s)"
  from assms(1) have inv: "log_inv s" and nc: "\<not> mClosing s"
    and A: "\<And>t. of_thread t ?c @ of_thread t ?q = A t"
    and em: "\<And>t. emitted_by None t (effects s) = lines_of [] (tokens t s)"
    and pe: "\<And>t. mCurrentThreadId s \<noteq> Some t \<Longrightarrow> pending_text [] (tokens t s) = []"
    and ms: "mStream s = (case mCurrentThreadId s of None \<Rightarrow> []
                      | Some a \<Rightarrow> pending_text [] (tokens a s))"
    and sk: "length (sink (effects s)) = length (filter (\<lambda>e. flushes (mFunctor e)) ?c)"
    by (simp_all add: consistent_def)
  from inv assms(2) have o: "mCurrentThreadId s = Some ?a"
    and bf: "\<forall>e\<in>set (take i ?q). mThreadId e \<noteq> ?a" and nf: "\<not> mFlushed s"
    by (auto simp: log_inv_def cursor_ok_def before_cursor_def owned_def)
  from ms o have ms': "mStream s = pending_text [] (tokens ?a s)" by simp
  from serialize_body_effects[OF assms(4)] assms(2) nf
  have ef: "effects s' = effects s @ Call ?e
         # (if flushes (mFunctor ?e) then [Cout (mStream s @ rendered (mFunctor ?e))] else [])"
    and st: "mStream s' = (if flushes (mFunctor ?e) then []
          else mStream s @ rendered (mFunctor ?e))"
    and q': "mLogQueue s' = erase i ?q"
    and ow: "flushes (mFunctor ?e) \<or> mCurrentThreadId s' = mCurrentThreadId s"
    and nc': "\<not> mClosing s'"
    using nc by auto
  have inv': "log_inv s'" by (rule log_inv_body[OF inv assms(2-4)])
  have c': "called (effects s') = ?c @ [?e]" using ef by simp
  have tk_a: "tokens ?a s' = tokens ?a s @ [mFunctor ?e]"
    by (simp add: tokens_def c')
  have tk_o: "tokens t s' = tokens t s" if "t \<noteq> ?a" for t
    using that by (auto simp: tokens_def c')
  have A': "of_thread t (called (effects s')) @ of_thread t (mLogQueue s') = A t" for t
  proof (cases "t = ?a")
    case True
    with of_thread_erase_own[OF assms(3) bf] A[of ?a] show ?thesis
      by (simp add: c' q')
  next
    case False
    with of_thread_erase_other[OF assms(3), of t] A[of t] show ?thesis
      by (auto simp: c' q')
  qed
  have em': "emitted_by None t (effects s') = lines_of [] (tokens t s')" for t
  proof (cases "t = ?a")
    case True
    with em[of ?a] ms' show ?thesis
      by (simp add: ef emitted_by_append tk_a lines_of_snoc)
  next
    case False
    with em[of t] show ?thesis
      by (simp add: ef emitted_by_append tk_o)
  qed
  have sk': "length (sink (effects s'))
          = length (filter (\<lambda>e. flushes (mFunctor e)) (called (effects s')))"
    using sk by (simp add: ef)
  have rest: "(\<forall>t. mCurrentThreadId s' \<noteq> Some t \<longrightarrow> pending_text [] (tokens t s') = [])
      \<and> mStream s' = (case mCurrentThreadId s' of None \<Rightarrow> []
                      | Some a \<Rightarrow> pending_text [] (tokens a s'))"
  proof (cases "flushes (mFunctor ?e)")
    case True
    have all: "pending_text [] (tokens t s') = []" for t
    proof (cases "t = ?a")
      case ta: True
      with True show ?thesis by (simp add: tk_a pending_text_snoc)
    next
      case False
      with pe[of t] o show ?thesis by (simp add: tk_o)
    qed
    with True st show ?thesis by (simp split: option.splits)
  next
    case False
    with ow have o': "mCurrentThreadId s' = Some ?a" using o by simp
    have "pending_text [] (tokens t s') = []" if "t \<noteq> ?a" for t
      using pe[of t] o that by (simp add: tk_o)
    moreover have "mStream s' = pending_text [] (tokens ?a s')"
      using False st ms' by (simp add: tk_a pending_text_snoc)
    ultimately show ?thesis using o' by auto
  qed
  from inv' nc' A' em' sk' rest show ?thesis by (simp add: consistent_def)
qed

lemma emitted_by_quiet_suffix:
  "\<forall>x\<in>set ys. x = Lock \<or> x = Unlock \<or> x = Notify \<Longrightarrow> emitted_by l t ys = []"
  by (induction l t ys rule: emitted_by.induct) auto

lemma consistent_write:
  assumes "consistent A s"
  shows "consistent (A(tid := A tid @ [\<lparr>mThreadId = tid, mFunctor = v\<rparr>])) (Log_write tid v s)"
proof -
  let ?s' = "Log_write tid v s"
  let ?e = "\<lparr>mThreadId = tid, mFunctor = v\<rparr>"
  from assms have inv: "log_inv s" and nc: "\<not> mClosing s"
    and A: "\<And>t. of_thread t (called (effects s)) @ of_thread t (mLogQueue s) = A t"
    and em: "\<And>t. emitted_by None t (effects s) = lines_of [] (tokens t s)"
    and pe: "\<And>t. mCurrentThreadId s \<noteq> Some t \<Longrightarrow> pending_text [] (tokens t s) = []"
    and ms: "mStream s = (case mCurrentThreadId s of None \<Rightarrow> []
                      | Some a \<Rightarrow> pending_text [] (tokens a s))"
    and sk: "length (sink (effects s))
        = length (filter (\<lambda>e. flushes (mFunctor e)) (called (effects s)))"
    by (simp_all add: consistent_def)
  obtain ys where ef: "effects ?s' = effects s @ ys"
    and ys: "\<forall>x\<in>set ys. x = Lock \<or> x = Unlock \<or> x = Notify"
    by (auto simp: Log_write_fields)
  from ys have cy: "called ys = []" and sy: "sink ys = []"
    by (induction ys rule: called.induct) auto
  have c': "called (effects ?s') = called (effects s)" by (simp add: ef cy)
  have tk: "tokens t ?s' = tokens t s" for t by (simp add: tokens_def c')
  have em': "emitted_by None t (effects ?s') = lines_of [] (tokens t ?s')" for t
    using em[of t] by (simp add: ef emitted_by_append emitted_by_quiet_suffix[OF ys] tk)
  have A': "of_thread t (called (effects ?s')) @ of_thread t (mLogQueue ?s')
      = (A(tid := A tid @ [?e])) t" for t
    using A[of t] by (auto simp: c' Log_write_fields)
  have sk': "length (sink (effects ?s'))
        = length (filter (\<lambda>e. flushes (mFunctor e)) (called (effects ?s')))"
    using sk by (simp add: c') (simp add: ef sy)
  have rest: "(\<forall>t. mCurrentThreadId ?s' \<noteq> Some t \<longrightarrow> pending_text [] (tokens t ?s') = [])
      \<and> mStream ?s' = (case mCurrentThreadId ?s' of None \<Rightarrow> []
                      | Some a \<Rightarrow> pending_text [] (tokens a ?s'))"
  proof (cases "mCurrentThreadId s")
    case None
    with pe have "pending_text [] (tokens t s) = []" for t by simp
    moreover from None inv have "mLogQueue s = []" by (simp add: log_inv_def)
    ultimately show ?thesis using None ms by (simp add: tk Log_write_fields)
  next
    case (Some a)
    with pe ms show ?thesis by (simp add: tk Log_write_fields)
  qed
  from log_inv_write[OF inv] nc A' em' sk' rest show ?thesis
    by (simp add: consistent_def Log_write_fields)
qed

lemma consistent_step_worker:
  assumes "consistent A s" "worker_step s = Some s'"
  shows "consistent A s'"
proof (cases "mThreadExited s \<or> \<not> wait_pred s")
  case True
  with assms show ?thesis by (auto simp: worker_step_def)
next
  case False
  from assms(1) have nc: "\<not> mClosing s" and ok: "cursor_ok s"
    by (simp_all add: consistent_def log_inv_def)
  with False obtain i where i: "mCurrentLog s = Some i" by (auto simp: wait_pred_def)
  with ok have l: "i < length (mLogQueue s)" by (simp add: cursor_ok_def)
  have "consistent A (effect Lock s)" using assms(1) by (simp add: consistent_effect)
  then have "\<exists>s1. serialize_pass s = Some (effect Unlock s1) \<and> consistent A s1
      \<and> mCurrentLog s1 = None"
    by (rule serialize_pass_normal[of s i "consistent A", OF nc i l])
       (rule consistent_body; assumption)
  with False assms(2) show ?thesis
    by (auto simp: worker_step_def consistent_effect)
qed

lemma consistent_run:
  "consistent A s \<Longrightarrow> Close \<notin> set acts \<Longrightarrow> run acts s = Some s' \<Longrightarrow>
     consistent (\<lambda>t. A t @ of_thread t (appended acts)) s'"
proof (induction acts arbitrary: s A)
  case Nil
  then show ?case by simp
next
  case (Cons a acts)
  from Cons.prems(3) obtain s1 where s1: "step a s = Some s1" "run acts s1 = Some s'"
    by (auto split: option.splits)
  from Cons.prems(2) have nc: "a \<noteq> Close" "Close \<notin> set acts" by auto
  show ?case
  proof (cases a)
    case (Append tid v)
    with s1(1) have "s1 = Log_write tid v s" by simp
    with consistent_write[OF Cons.prems(1), of tid v]
    have "consistent (A(tid := A tid @ [\<lparr>mThreadId = tid, mFunctor = v\<rparr>])) s1" by simp
    from Cons.IH[OF this nc(2) s1(2)]
    have "consistent (\<lambda>t. (A(tid := A tid @ [\<lparr>mThreadId = tid, mFunctor = v\<rparr>])) t
        @ of_thread t (appended acts)) s'" .
    moreover have "(\<lambda>t. (A(tid := A tid @ [\<lparr>mThreadId = tid, mFunctor = v\<rparr>])) t
        @ of_thread t (appended acts)) = (\<lambda>t. A t @ of_thread t (appended (a # acts)))"
      using Append by (auto simp: fun_eq_iff)
    ultimately show ?thesis by simp
  next
    case Worker
    with s1(1) consistent_step_worker[OF Cons.prems(1)] have "consistent A s1" by simp
    from Cons.IH[OF this nc(2) s1(2)] Worker show ?thesis by simp
  next
    case Close
    with nc show ?thesis by simp
  qed
qed

section \<open>The text of a flush\<close>

text \<open>
  Claim C1, as the code has it. In an execution in which shutdown is not requested, for
  every thread \<open>t\<close>: the texts written to \<^verbatim>\<open>std::cout\<close> at the calls of the flushing
  closures of \<open>t\<close> are, one by one, the concatenations of the rendered insertions of \<open>t\<close>
  between two flush tokens, so they hold no text of another thread; the closures of \<open>t\<close>
  called so far followed by its entries still queued are the entries \<open>t\<close> appended, in the
  order of the appends; and every write to \<^verbatim>\<open>std::cout\<close> belongs to one called flushing
  closure.
\<close>

theorem flush_segment:
  assumes "run acts Log_init = Some s" and "Close \<notin> set acts"
  shows "emitted_by None t (effects s)
       = lines_of [] (map mFunctor (of_thread t (called (effects s))))
     \<and> of_thread t (called (effects s)) @ of_thread t (mLogQueue s)
       = of_thread t (appended acts)
     \<and> length (sink (effects s))
       = length (filter (\<lambda>e. flushes (mFunctor e)) (called (effects s)))"
proof -
  have "consistent (\<lambda>t. []) Log_init"
    using log_inv_init by (simp add: consistent_def tokens_def Log_init_def)
  from consistent_run[OF this assms(2,1)] show ?thesis
    by (simp add: consistent_def tokens_def)
qed

theorem flush_segment_witness:
  "run [Append 1 (Value ''abc''), Append 2 (Value ''x''), Append 1 (Value ''42''), Worker,
       Append 2 Endl, Append 1 Endl, Worker] Log_init
     = Some (the (run [Append 1 (Value ''abc''), Append 2 (Value ''x''), Append 1 (Value ''42''), Worker,
       Append 2 Endl, Append 1 Endl, Worker] Log_init))
   \<and> emitted_by None 1 (effects (the (run [Append 1 (Value ''abc''), Append 2 (Value ''x''), Append 1 (Value ''42''), Worker,
       Append 2 Endl, Append 1 Endl, Worker] Log_init))) = [''abc42'' @ [CHR 0x0A]]
   \<and> of_thread 1 (called (effects (the (run [Append 1 (Value ''abc''), Append 2 (Value ''x''), Append 1 (Value ''42''), Worker,
       Append 2 Endl, Append 1 Endl, Worker] Log_init))))
       @ of_thread 1 (mLogQueue (the (run [Append 1 (Value ''abc''), Append 2 (Value ''x''), Append 1 (Value ''42''), Worker,
       Append 2 Endl, Append 1 Endl, Worker] Log_init)))
     = of_thread 1 (appended [Append 1 (Value ''abc''), Append 2 (Value ''x''), Append 1 (Value ''42''), Worker,
       Append 2 Endl, Append 1 Endl, Worker])"
proof -
  let ?s = "the (run [Append 1 (Value ''abc''), Append 2 (Value ''x''), Append 1 (Value ''42''), Worker,
       Append 2 Endl, Append 1 Endl, Worker] Log_init)"
  have h1: "run [Append 1 (Value ''abc''), Append 2 (Value ''x''), Append 1 (Value ''42''), Worker,
       Append 2 Endl, Append 1 Endl, Worker] Log_init = Some ?s" by code_simp
  have h2: "Close \<notin> set [Append 1 (Value ''abc''), Append 2 (Value ''x''), Append 1 (Value ''42''), Worker,
       Append 2 Endl, Append 1 Endl, Worker]" by simp
  have l: "lines_of [] (map mFunctor (of_thread 1 (called (effects ?s))))
      = [''abc42'' @ [CHR 0x0A]]"
    by code_simp
  from flush_segment [OF h1 h2, of 1] l h1 show ?thesis by simp
qed

text \<open>
  Claim C1 as stated fails on the closing path. Thread 1 inserts \<open>a\<close> without a flush and
  the worker calls that closure; thread 2 appends \<open>x\<close> and \<^verbatim>\<open>std::endl\<close>; then the destructor
  runs. The closing path calls the two closures of thread 2 and writes the whole buffer: the
  text written at the flush of thread 2 is \<open>ax\<close> and a newline, not \<open>x\<close> and a newline.
\<close>

theorem flush_segment_counterexample:
  "of_thread 2 (appended [Append 1 (Value ''a''), Worker, Append 2 (Value ''x''),
       Append 2 Endl, Close, Worker])
     = [\<lparr>mThreadId = 2, mFunctor = Value ''x''\<rparr>, \<lparr>mThreadId = 2, mFunctor = Endl\<rparr>]
   \<and> of_thread 2 (called (effects (the (run [Append 1 (Value ''a''), Worker,
       Append 2 (Value ''x''), Append 2 Endl, Close, Worker] Log_init))))
     = [\<lparr>mThreadId = 2, mFunctor = Value ''x''\<rparr>, \<lparr>mThreadId = 2, mFunctor = Endl\<rparr>]
   \<and> lines_of [] [Value ''x'', Endl] = [''x'' @ [CHR 0x0A]]
   \<and> emitted_by None 2 (effects (the (run [Append 1 (Value ''a''), Worker,
       Append 2 (Value ''x''), Append 2 Endl, Close, Worker] Log_init)))
     = [''ax'' @ [CHR 0x0A]]
   \<and> sink (effects (the (run [Append 1 (Value ''a''), Worker,
       Append 2 (Value ''x''), Append 2 Endl, Close, Worker] Log_init)))
     = [''ax'' @ [CHR 0x0A]]"
  by code_simp

section \<open>Shutdown\<close>

text \<open>
  Claim C2. In a reachable state in which the worker thread is still running, the
  destructor returns (the thread has left \<^verbatim>\<open>serialize\<close>) with the queue empty: the closure
  of every queued entry has been called exactly once (the calls are a permutation of the
  queue), the entries of one thread in the order of their arrival, the calls of one thread
  in one block, and after the calls one write to \<^verbatim>\<open>std::cout\<close> carries the buffered text
  and the text of all the calls.
\<close>

theorem shutdown_drains:
  assumes "run acts Log_init = Some s" and "\<not> mThreadExited s"
  shows "\<exists>s' ex. Log_dtor s = Some s' \<and> mThreadExited s' \<and> mLogQueue s' = [] \<and> mStream s' = []
     \<and> effects s' = effects s @ [Lock, Unlock, Notify, Lock] @ map Call ex
          @ [Cout (mStream s @ text_of ex), Unlock]
     \<and> mset ex = mset (mLogQueue s)
     \<and> (\<forall>t. filter (\<lambda>e. mThreadId e = t) ex = filter (\<lambda>e. mThreadId e = t) (mLogQueue s))
     \<and> distinct (remdups_adj (map mThreadId ex))"
proof -
  let ?c = "request_close s"
  from reachable_inv[OF assms(1)] have inv: "log_inv ?c" by (simp add: log_inv_close)
  then have r: "in_range ?c" by (simp add: log_inv_def cursor_ok_in_range)
  have cl: "mClosing ?c" and f: "mLogQueue ?c = mLogQueue s" "mStream ?c = mStream s"
    "effects ?c = effects s @ [Lock, Unlock, Notify]" "\<not> mThreadExited ?c"
    using assms(2) by (simp_all add: request_close_def)
  have w: "Log_dtor s = serialize_pass ?c"
    using cl f(4) by (simp add: Log_dtor_def worker_step_def wait_pred_def)
  from serialize_pass_closing[OF cl r] obtain s' where
    "serialize_pass ?c = Some s'" "mLogQueue s' = []" "mStream s' = []" "mThreadExited s'"
    "effects s' = effects ?c @ [Lock] @ map Call (closing_order ?c)
          @ [Cout (mStream ?c @ text_of (closing_order ?c)), Unlock]"
    by blast
  with w f closing_order_props[OF inv] show ?thesis
    by (intro exI[of _ s'] exI[of _ "closing_order ?c"]) simp
qed

theorem shutdown_drains_witness:
  "run [Append 1 (Value ''a''), Append 2 (Value ''x''), Append 1 (Value ''b'')] Log_init = Some (the (run [Append 1 (Value ''a''), Append 2 (Value ''x''), Append 1 (Value ''b'')] Log_init))
   \<and> \<not> mThreadExited (the (run [Append 1 (Value ''a''), Append 2 (Value ''x''), Append 1 (Value ''b'')] Log_init))
   \<and> length (mLogQueue (the (run [Append 1 (Value ''a''), Append 2 (Value ''x''), Append 1 (Value ''b'')] Log_init))) = 3
   \<and> (\<exists>s' ex. Log_dtor (the (run [Append 1 (Value ''a''), Append 2 (Value ''x''), Append 1 (Value ''b'')] Log_init)) = Some s' \<and> mThreadExited s'
        \<and> mLogQueue s' = []
        \<and> effects s' = effects (the (run [Append 1 (Value ''a''), Append 2 (Value ''x''), Append 1 (Value ''b'')] Log_init)) @ [Lock, Unlock, Notify, Lock]
             @ map Call ex
             @ [Cout (mStream (the (run [Append 1 (Value ''a''), Append 2 (Value ''x''), Append 1 (Value ''b'')] Log_init)) @ text_of ex), Unlock]
        \<and> mset ex = mset (mLogQueue (the (run [Append 1 (Value ''a''), Append 2 (Value ''x''), Append 1 (Value ''b'')] Log_init)))
        \<and> distinct (remdups_adj (map mThreadId ex)))"
proof -
  let ?s = "the (run [Append 1 (Value ''a''), Append 2 (Value ''x''), Append 1 (Value ''b'')] Log_init)"
  have h1: "run [Append 1 (Value ''a''), Append 2 (Value ''x''), Append 1 (Value ''b'')] Log_init = Some ?s" by code_simp
  have h2: "\<not> mThreadExited ?s" by code_simp
  have h3: "length (mLogQueue ?s) = 3" by code_simp
  from shutdown_drains [OF h1 h2] h1 h2 h3 show ?thesis by blast
qed

section \<open>The body of the drain loop\<close>

text \<open>
  Claim C3. When the flag \<^verbatim>\<open>mFlushed\<close> is set after the closure at the iterator has run,
  the body writes the buffered text to \<^verbatim>\<open>std::cout\<close> and clears the buffer, erases the
  entry, and puts the iterator at the head of the queue. If the queue is then empty the owner
  becomes the default id, the body leaves through \<^verbatim>\<open>break\<close>, the loop ends and the worker
  waits again (the predicate of \<^verbatim>\<open>wait\<close> is false unless the logger is closing);
  otherwise the owner becomes the thread of the new head.
\<close>

theorem body_flushed:
  assumes "mCurrentLog s = Some i" and "i < length (mLogQueue s)"
    and "mFlushed (call_functor (mLogQueue s ! i) s)"
  shows "\<exists>brk s'. serialize_body s = Some (brk, s')
     \<and> effects s' = effects s @ [Call (mLogQueue s ! i),
          Cout (mStream s @ rendered (mFunctor (mLogQueue s ! i)))]
     \<and> mStream s' = [] \<and> \<not> mFlushed s'
     \<and> mLogQueue s' = take i (mLogQueue s) @ drop (Suc i) (mLogQueue s)
     \<and> (if mLogQueue s' = []
         then brk \<and> mCurrentLog s' = None \<and> mCurrentThreadId s' = None
              \<and> serialize_do_while s = Some s' \<and> (\<not> mClosing s \<longrightarrow> \<not> wait_pred s')
         else \<not> brk \<and> mCurrentLog s' = Some 0
              \<and> mCurrentThreadId s' = Some (mThreadId (hd (mLogQueue s'))))"
proof (cases "erase i (mLogQueue s) = []")
  case True
  define s' where "s' = (flush (call_functor (mLogQueue s ! i) s))
     \<lparr>mLogQueue := erase i (mLogQueue s), mCurrentLog := None, mCurrentThreadId := None\<rparr>"
  have b: "serialize_body s = Some (True, s')"
    using assms True by (simp add: serialize_body_def Let_def begin_it_def s'_def)
  from serialize_do_while_stop[OF b] have d: "serialize_do_while s = Some s'" by simp
  have f: "effects s' = effects s @ [Call (mLogQueue s ! i),
          Cout (mStream s @ rendered (mFunctor (mLogQueue s ! i)))]"
    "mStream s' = []" "\<not> mFlushed s'" "mCurrentLog s' = None" "mCurrentThreadId s' = None"
    "mLogQueue s' = take i (mLogQueue s) @ drop (Suc i) (mLogQueue s)"
    "mClosing s' = mClosing s"
    by (simp_all add: s'_def erase_def)
  from True have e: "mLogQueue s' = []" by (simp add: s'_def)
  show ?thesis
    apply (rule exI[of _ True])
    apply (rule exI[of _ s'])
    using b d f e by (simp add: wait_pred_def)
next
  case False
  define s' where "s' = (flush (call_functor (mLogQueue s ! i) s))
     \<lparr>mLogQueue := erase i (mLogQueue s), mCurrentLog := Some 0,
       mCurrentThreadId := Some (mThreadId (hd (erase i (mLogQueue s))))\<rparr>"
  have b: "serialize_body s = Some (False, s')"
    using assms False by (simp add: serialize_body_def Let_def begin_it_def s'_def)
  have f: "effects s' = effects s @ [Call (mLogQueue s ! i),
          Cout (mStream s @ rendered (mFunctor (mLogQueue s ! i)))]"
    "mStream s' = []" "\<not> mFlushed s'" "mCurrentLog s' = Some 0"
    "mCurrentThreadId s' = Some (mThreadId (hd (mLogQueue s')))"
    "mLogQueue s' = take i (mLogQueue s) @ drop (Suc i) (mLogQueue s)"
    by (simp_all add: s'_def erase_def)
  from False have e: "mLogQueue s' \<noteq> []" by (simp add: s'_def)
  show ?thesis
    apply (rule exI[of _ False])
    apply (rule exI[of _ s'])
    using b f e by simp
qed

theorem body_flushed_witness:
  "mCurrentLog (Log_write 1 Endl Log_init) = Some 0
   \<and> 0 < length (mLogQueue (Log_write 1 Endl Log_init))
   \<and> mFlushed (call_functor (mLogQueue (Log_write 1 Endl Log_init) ! 0)
        (Log_write 1 Endl Log_init))
   \<and> (\<exists>brk s'. serialize_body (Log_write 1 Endl Log_init) = Some (brk, s')
        \<and> sink (effects s') = [[CHR 0x0A]] \<and> mStream s' = [] \<and> mLogQueue s' = []
        \<and> brk \<and> mCurrentLog s' = None \<and> mCurrentThreadId s' = None)"
proof -
  have h1: "mCurrentLog (Log_write 1 Endl Log_init) = Some 0" by code_simp
  have h2: "0 < length (mLogQueue (Log_write 1 Endl Log_init))" by code_simp
  have h3: "mFlushed (call_functor (mLogQueue (Log_write 1 Endl Log_init) ! 0)
        (Log_write 1 Endl Log_init))" by code_simp
  have q: "mLogQueue (Log_write 1 Endl Log_init) = [\<lparr>mThreadId = 1, mFunctor = Endl\<rparr>]"
    and e: "sink (effects (Log_write 1 Endl Log_init)) = []"
    and m: "mStream (Log_write 1 Endl Log_init) = []"
    by code_simp+
  from body_flushed [OF h1 h2 h3] obtain brk s' where
    b: "serialize_body (Log_write 1 Endl Log_init) = Some (brk, s')"
    and f: "effects s' = effects (Log_write 1 Endl Log_init) @
          [Call (mLogQueue (Log_write 1 Endl Log_init) ! 0),
           Cout (mStream (Log_write 1 Endl Log_init) @
             rendered (mFunctor (mLogQueue (Log_write 1 Endl Log_init) ! 0)))]"
    and g: "mStream s' = []"
    and k: "mLogQueue s' = take 0 (mLogQueue (Log_write 1 Endl Log_init)) @
          drop (Suc 0) (mLogQueue (Log_write 1 Endl Log_init))"
    and r: "if mLogQueue s' = []
         then brk \<and> mCurrentLog s' = None \<and> mCurrentThreadId s' = None
              \<and> serialize_do_while (Log_write 1 Endl Log_init) = Some s'
              \<and> (\<not> mClosing (Log_write 1 Endl Log_init) \<longrightarrow> \<not> wait_pred s')
         else \<not> brk \<and> mCurrentLog s' = Some 0
              \<and> mCurrentThreadId s' = Some (mThreadId (hd (mLogQueue s')))"
    by blast
  from k q have k': "mLogQueue s' = []" by simp
  from f q e m have f': "sink (effects s') = [[CHR 0x0A]]" by simp
  from r k' have "brk \<and> mCurrentLog s' = None \<and> mCurrentThreadId s' = None" by simp
  with h1 h2 h3 b f' g k' show ?thesis by blast
qed

text \<open>
  Claim C4. When the flag is not set after the closure has run, the body erases that entry
  only, so the entries of other threads stay in the queue as they were, and moves the
  iterator to the first entry from that position on whose thread is the owner. If there is
  none the iterator is at the end, the owner is unchanged, the loop ends and the worker
  waits again.
\<close>

theorem body_not_flushed:
  assumes "mCurrentLog s = Some i" and "i < length (mLogQueue s)"
    and "\<not> mFlushed (call_functor (mLogQueue s ! i) s)"
  shows "\<exists>s'. serialize_body s = Some (False, s')
     \<and> effects s' = effects s @ [Call (mLogQueue s ! i)]
     \<and> mLogQueue s' = take i (mLogQueue s) @ drop (Suc i) (mLogQueue s)
     \<and> mCurrentThreadId s' = mCurrentThreadId s
     \<and> (case mCurrentLog s' of
          None \<Rightarrow>
            (\<forall>k. i \<le> k \<and> k < length (mLogQueue s') \<longrightarrow>
                 Some (mThreadId (mLogQueue s' ! k)) \<noteq> mCurrentThreadId s)
            \<and> serialize_do_while s = Some s' \<and> (\<not> mClosing s \<longrightarrow> \<not> wait_pred s')
        | Some j \<Rightarrow>
            i \<le> j \<and> j < length (mLogQueue s')
            \<and> Some (mThreadId (mLogQueue s' ! j)) = mCurrentThreadId s
            \<and> (\<forall>k. i \<le> k \<and> k < j \<longrightarrow>
                 Some (mThreadId (mLogQueue s' ! k)) \<noteq> mCurrentThreadId s))"
proof -
  define q where "q = erase i (mLogQueue s)"
  define P where "P = (\<lambda>entry::LogEntry. mCurrentThreadId s = Some (mThreadId entry))"
  define c where "c = find_if (erase_it i (mLogQueue s)) P q"
  define s' where "s' = (call_functor (mLogQueue s ! i) s)\<lparr>mLogQueue := q, mCurrentLog := c\<rparr>"
  have b: "serialize_body s = Some (False, s')"
    using assms by (simp add: serialize_body_def Let_def s'_def c_def P_def q_def)
  have f: "effects s' = effects s @ [Call (mLogQueue s ! i)]"
    "mLogQueue s' = take i (mLogQueue s) @ drop (Suc i) (mLogQueue s)"
    "mCurrentThreadId s' = mCurrentThreadId s" "mCurrentLog s' = c" "mLogQueue s' = q"
    "mClosing s' = mClosing s"
    by (simp_all add: s'_def q_def erase_def)
  have Pn: "P e \<longleftrightarrow> Some (mThreadId e) = mCurrentThreadId s" for e
    by (auto simp: P_def)
  show ?thesis
  proof (cases c)
    case None
    have n: "\<not> P (q ! k)" if "i \<le> k" "k < length q" for k
    proof (cases "Suc i < length (mLogQueue s)")
      case True
      with None have "find_if (Some i) P q = None" by (simp add: c_def erase_it_eq)
      from find_if_None[OF this] that show ?thesis by blast
    next
      case False
      with assms(2) have "length q \<le> i" by (simp add: q_def)
      with that show ?thesis by simp
    qed
    from None f(4) have "mCurrentLog s' = None" by simp
    with serialize_do_while_stop[OF b] have d: "serialize_do_while s = Some s'" by simp
    show ?thesis
      apply (rule exI[of _ s'])
      using b d f None n by (simp add: wait_pred_def Pn)
  next
    case (Some j)
    then have "find_if (Some i) P q = Some j"
      by (cases "Suc i < length (mLogQueue s)") (simp_all add: c_def erase_it_eq)
    from find_if_Some[OF this]
    have j: "i \<le> j" "j < length q" "P (q ! j)" "\<And>k. i \<le> k \<Longrightarrow> k < j \<Longrightarrow> \<not> P (q ! k)"
      by blast+
    show ?thesis
      apply (rule exI[of _ s'])
      using b f Some j by (simp add: Pn)
  qed
qed

theorem body_not_flushed_witness:
  "mCurrentLog (Log_write 2 Endl (Log_write 1 (Value ''a'') Log_init)) = Some 0
   \<and> 0 < length (mLogQueue (Log_write 2 Endl (Log_write 1 (Value ''a'') Log_init)))
   \<and> \<not> mFlushed (call_functor
          (mLogQueue (Log_write 2 Endl (Log_write 1 (Value ''a'') Log_init)) ! 0)
          (Log_write 2 Endl (Log_write 1 (Value ''a'') Log_init)))
   \<and> (\<exists>s'. serialize_body (Log_write 2 Endl (Log_write 1 (Value ''a'') Log_init))
               = Some (False, s')
        \<and> mLogQueue s' = [\<lparr>mThreadId = 2, mFunctor = Endl\<rparr>]
        \<and> mCurrentThreadId s' = Some 1)"
proof -
  let ?s = "Log_write 2 Endl (Log_write 1 (Value ''a'') Log_init)"
  have h1: "mCurrentLog ?s = Some 0" by code_simp
  have h2: "0 < length (mLogQueue ?s)" by code_simp
  have h3: "\<not> mFlushed (call_functor (mLogQueue ?s ! 0) ?s)" by code_simp
  have q: "mLogQueue ?s = [\<lparr>mThreadId = 1, mFunctor = Value ''a''\<rparr>,
      \<lparr>mThreadId = 2, mFunctor = Endl\<rparr>]"
    and o: "mCurrentThreadId ?s = Some 1"
    by code_simp+
  from body_not_flushed [OF h1 h2 h3] obtain s' where
    b: "serialize_body ?s = Some (False, s')"
    and k: "mLogQueue s' = take 0 (mLogQueue ?s) @ drop (Suc 0) (mLogQueue ?s)"
    and r: "mCurrentThreadId s' = mCurrentThreadId ?s"
    by blast
  from k q have "mLogQueue s' = [\<lparr>mThreadId = 2, mFunctor = Endl\<rparr>]" by simp
  with h1 h2 h3 b r o show ?thesis by auto
qed

section \<open>When an append signals\<close>

text \<open>
  Claim C5, as the code has it. An append always puts its entry at the tail of the queue,
  and it calls \<^verbatim>\<open>notify_one\<close> exactly when the owner is the default id or the owner is the
  calling thread, whether the iterator is at the end or not; when another thread is the
  owner it does not notify.
\<close>

theorem write_signals:
  "signals (effects (Log_write tid v s)) =
     signals (effects s) +
       (if mCurrentThreadId s = None \<or> mCurrentThreadId s = Some tid then 1 else 0)
   \<and> mLogQueue (Log_write tid v s) = mLogQueue s @ [\<lparr>mThreadId = tid, mFunctor = v\<rparr>]"
  by (simp add: Log_write_fields)

text \<open>
  Claim C5 as stated fails: after one append by thread 1 that thread is the owner and the
  iterator designates its pending entry, and a second append by thread 1 notifies again.
\<close>

theorem write_signals_counterexample:
  "mCurrentThreadId (Log_write 1 (Value ''a'') Log_init) = Some 1
   \<and> mCurrentLog (Log_write 1 (Value ''a'') Log_init) = Some 0
   \<and> signals (effects (Log_write 1 (Value ''b'') (Log_write 1 (Value ''a'') Log_init))) =
       Suc (signals (effects (Log_write 1 (Value ''a'') Log_init)))"
  by code_simp

section \<open>No output without a flush\<close>

text \<open>
  An invariant of the executions without shutdown: a write to \<^verbatim>\<open>std::cout\<close> has happened
  only if some called closure inserted \<^verbatim>\<open>std::endl\<close> or \<^verbatim>\<open>std::flush\<close>.
\<close>

lemma quiet_effect: "e = Lock \<or> e = Unlock \<or> e = Notify \<Longrightarrow> quiet (effect e s) = quiet s"
  by (auto simp: quiet_def)

lemma quiet_body:
  assumes "quiet s" "mCurrentLog s = Some i" "i < length (mLogQueue s)"
    "serialize_body s = Some (b, s')"
  shows "quiet s'"
proof -
  from assms(1) have inv: "log_inv s" by (simp add: quiet_def)
  from log_inv_body[OF inv assms(2-4)] have "log_inv s'" .
  moreover from serialize_body_effects[OF assms(4)] assms(1,2)
  have "\<not> mClosing s' \<and> (sink (effects s') \<noteq> [] \<longrightarrow> (\<exists>e\<in>set (called (effects s')). flushes (mFunctor e)))"
    by (auto simp: quiet_def log_inv_def split: if_splits)
  ultimately show ?thesis by (simp add: quiet_def)
qed

lemma quiet_step:
  assumes "quiet s" "a \<noteq> Close" "step a s = Some s'"
  shows "quiet s'"
proof (cases a)
  case (Append tid v)
  with assms(1,3) show ?thesis
    by (auto simp: quiet_def log_inv_write Log_write_fields)
next
  case Close
  with assms(2) show ?thesis by simp
next
  case Worker
  show ?thesis
  proof (cases "mThreadExited s \<or> \<not> wait_pred s")
    case True
    with Worker assms(1,3) show ?thesis by (auto simp: worker_step_def)
  next
    case False
    from assms(1) have nc: "\<not> mClosing s" and ok: "cursor_ok s"
      by (simp_all add: quiet_def log_inv_def)
    with False obtain i where i: "mCurrentLog s = Some i" by (auto simp: wait_pred_def)
    with ok have l: "i < length (mLogQueue s)" by (simp add: cursor_ok_def)
    have "quiet (effect Lock s)" using assms(1) by (simp add: quiet_effect)
    then have "\<exists>s1. serialize_pass s = Some (effect Unlock s1) \<and> quiet s1 \<and> mCurrentLog s1 = None"
      by (rule serialize_pass_normal[of s i quiet, OF nc i l]) (rule quiet_body; assumption)
    with False Worker assms(3) show ?thesis
      by (auto simp: worker_step_def quiet_effect)
  qed
qed

lemma quiet_run: "quiet s \<Longrightarrow> Close \<notin> set acts \<Longrightarrow> run acts s = Some s' \<Longrightarrow> quiet s'"
proof (induction acts arbitrary: s)
  case Nil
  then show ?case by simp
next
  case (Cons a acts)
  from Cons.prems(3) obtain s1 where s1: "step a s = Some s1" "run acts s1 = Some s'"
    by (auto split: option.splits)
  from Cons.prems(2) have "a \<noteq> Close" "Close \<notin> set acts" by auto
  with quiet_step[OF Cons.prems(1) _ s1(1)] Cons.IH[OF _ _ s1(2)] show ?case by blast
qed

text \<open>
  Claim C6. In an execution in which shutdown is never requested and no called closure
  inserts a flush token, nothing is written to \<^verbatim>\<open>std::cout\<close>, whatever the threads append
  and whenever the worker runs.
\<close>

theorem no_flush_no_output:
  assumes "run acts Log_init = Some s" and "Close \<notin> set acts"
    and "\<forall>e\<in>set (called (effects s)). \<not> flushes (mFunctor e)"
  shows "sink (effects s) = []"
proof -
  have "quiet Log_init" using log_inv_init by (simp add: quiet_def Log_init_def)
  from quiet_run[OF this assms(2,1)] assms(3) show ?thesis by (auto simp: quiet_def)
qed

theorem no_flush_no_output_witness:
  "run [Append 1 (Value ''a''), Append 2 (Value ''x''), Worker, Append 1 (Value ''b''), Worker] Log_init = Some (the (run [Append 1 (Value ''a''), Append 2 (Value ''x''), Worker, Append 1 (Value ''b''), Worker] Log_init))
   \<and> called (effects (the (run [Append 1 (Value ''a''), Append 2 (Value ''x''), Worker, Append 1 (Value ''b''), Worker] Log_init)))
       = [\<lparr>mThreadId = 1, mFunctor = Value ''a''\<rparr>, \<lparr>mThreadId = 1, mFunctor = Value ''b''\<rparr>]
   \<and> sink (effects (the (run [Append 1 (Value ''a''), Append 2 (Value ''x''), Worker, Append 1 (Value ''b''), Worker] Log_init))) = []"
proof -
  let ?s = "the (run [Append 1 (Value ''a''), Append 2 (Value ''x''), Worker, Append 1 (Value ''b''), Worker] Log_init)"
  have h1: "run [Append 1 (Value ''a''), Append 2 (Value ''x''), Worker, Append 1 (Value ''b''), Worker] Log_init = Some ?s" by code_simp
  have h2: "Close \<notin> set [Append 1 (Value ''a''), Append 2 (Value ''x''), Worker, Append 1 (Value ''b''), Worker]" by simp
  have c: "called (effects ?s)
       = [\<lparr>mThreadId = 1, mFunctor = Value ''a''\<rparr>, \<lparr>mThreadId = 1, mFunctor = Value ''b''\<rparr>]"
    by code_simp
  then have h3: "\<forall>e\<in>set (called (effects ?s)). \<not> flushes (mFunctor e)" by simp
  from no_flush_no_output [OF h1 h2 h3] h1 c show ?thesis by simp
qed

section \<open>The iterator invariant\<close>

text \<open>
  Claim C7. Whenever the mutex is free, that is in the initial state and after every step of
  an execution, the iterator \<^verbatim>\<open>mCurrentLog\<close> is at the end or designates a node of the
  queue whose thread is \<^verbatim>\<open>mCurrentThreadId\<close>. Every append keeps this, every pass of the
  worker keeps it (and dereferences no iterator that designates no node), and so does the
  request to close.
\<close>

theorem cursor_invariant:
  "cursor_ok Log_init
   \<and> (\<forall>acts. \<exists>s. run acts Log_init = Some s \<and> cursor_ok s)
   \<and> (\<forall>s tid v. cursor_ok s \<longrightarrow> cursor_ok (Log_write tid v s))
   \<and> (\<forall>s. cursor_ok s \<longrightarrow> (\<exists>s'. worker_step s = Some s' \<and> cursor_ok s'))
   \<and> (\<forall>s. cursor_ok s \<longrightarrow> cursor_ok (request_close s))"
  using cursor_ok_init cursor_ok_run[OF cursor_ok_init] cursor_ok_write cursor_ok_worker
  by (simp add: cursor_ok_close)

theorem cursor_invariant_witness:
  "cursor_ok (Log_write 1 (Value ''a'') Log_init)
   \<and> cursor_ok (Log_write 2 Endl (Log_write 1 (Value ''a'') Log_init))
   \<and> (\<exists>s'. worker_step (Log_write 2 Endl (Log_write 1 (Value ''a'') Log_init)) = Some s'
          \<and> cursor_ok s')"
proof -
  have h: "cursor_ok (Log_write 1 (Value ''a'') Log_init)" by code_simp
  with cursor_invariant show ?thesis by blast
qed

section \<open>An append that finds no owner\<close>

text \<open>
  Claim C8. In every reachable state in which \<^verbatim>\<open>mCurrentThreadId\<close> is the default id, an
  append makes the calling thread the owner, puts the iterator on the entry it has just
  appended, and calls \<^verbatim>\<open>notify_one\<close> once. (The code takes the head of the queue; in a
  reachable state without owner the queue is empty, so the head is the new entry.)
\<close>

theorem write_claims_floor:
  assumes "run acts Log_init = Some s" and "mCurrentThreadId s = None"
  shows "mCurrentThreadId (Log_write tid v s) = Some tid
     \<and> mCurrentLog (Log_write tid v s) = Some (length (mLogQueue s))
     \<and> mLogQueue (Log_write tid v s) ! length (mLogQueue s) = \<lparr>mThreadId = tid, mFunctor = v\<rparr>
     \<and> signals (effects (Log_write tid v s)) = Suc (signals (effects s))"
proof -
  from reachable_inv[OF assms(1)] assms(2) have "mLogQueue s = []" by (simp add: log_inv_def)
  with assms(2) show ?thesis by (simp add: Log_write_fields)
qed

theorem write_claims_floor_witness:
  "run [Append 1 (Value ''a''), Append 1 Endl, Worker] Log_init
     = Some (the (run [Append 1 (Value ''a''), Append 1 Endl, Worker] Log_init))
   \<and> mCurrentThreadId (the (run [Append 1 (Value ''a''), Append 1 Endl, Worker] Log_init)) = None
   \<and> mCurrentThreadId (Log_write 2 (Value ''x'')
        (the (run [Append 1 (Value ''a''), Append 1 Endl, Worker] Log_init))) = Some 2
   \<and> mCurrentLog (Log_write 2 (Value ''x'')
        (the (run [Append 1 (Value ''a''), Append 1 Endl, Worker] Log_init))) = Some 0"
proof -
  let ?s = "the (run [Append 1 (Value ''a''), Append 1 Endl, Worker] Log_init)"
  have h1: "run [Append 1 (Value ''a''), Append 1 Endl, Worker] Log_init = Some ?s"
    by code_simp
  have h2: "mCurrentThreadId ?s = None" by code_simp
  have l: "length (mLogQueue ?s) = 0" by code_simp
  from write_claims_floor [OF h1 h2, of 2 "Value ''x''"] l h1 h2 show ?thesis by simp
qed

section \<open>A thread that holds the floor and is silent\<close>

text \<open>
  Claim C9. Let a thread be the owner with the iterator at the end, the logger not closing.
  Then, as long as only other threads append (the worker being scheduled at any time), no
  append notifies or changes the owner or the iterator, the new entries stay in the queue
  and no closure is called: the predicate of \<^verbatim>\<open>wait\<close> stays false and the worker stays
  blocked. An append by the owner or the request to close makes the predicate true.
\<close>

theorem floor_holder_blocks:
  assumes "mCurrentThreadId s = Some a" and "mCurrentLog s = None" and "\<not> mClosing s"
    and "\<forall>x\<in>set acts. x = Worker \<or> (\<exists>t v. x = Append t v \<and> t \<noteq> a)"
  shows "\<exists>s'. run acts s = Some s'
     \<and> mCurrentThreadId s' = Some a \<and> mCurrentLog s' = None
     \<and> mLogQueue s' = mLogQueue s @ appended acts
     \<and> signals (effects s') = signals (effects s)
     \<and> called (effects s') = called (effects s)
     \<and> sink (effects s') = sink (effects s)
     \<and> \<not> wait_pred s' \<and> worker_step s' = Some s'
     \<and> wait_pred (Log_write a v s') \<and> wait_pred (request_close s')"
  using assms
proof (induction acts arbitrary: s)
  case Nil
  then show ?case
    by (simp add: wait_pred_def worker_step_def Log_write_fields request_close_def)
next
  case (Cons x acts)
  from Cons.prems(4) have x: "x = Worker \<or> (\<exists>t v. x = Append t v \<and> t \<noteq> a)"
    and rest: "\<forall>x\<in>set acts. x = Worker \<or> (\<exists>t v. x = Append t v \<and> t \<noteq> a)"
    by simp_all
  from x show ?case
  proof
    assume w: "x = Worker"
    with Cons.prems(2,3) have "step x s = Some s" by (simp add: worker_step_def wait_pred_def)
    with Cons.IH[OF Cons.prems(1-3) rest] w show ?thesis by simp
  next
    assume "\<exists>t v. x = Append t v \<and> t \<noteq> a"
    then obtain t u where x': "x = Append t u" "t \<noteq> a" by blast
    let ?s1 = "Log_write t u s"
    have f: "mCurrentThreadId ?s1 = Some a" "mCurrentLog ?s1 = None" "\<not> mClosing ?s1"
      "mLogQueue ?s1 = mLogQueue s @ [\<lparr>mThreadId = t, mFunctor = u\<rparr>]"
      "signals (effects ?s1) = signals (effects s)"
      "called (effects ?s1) = called (effects s)"
      "sink (effects ?s1) = sink (effects s)"
      using Cons.prems(1-3) x'(2) by (simp_all add: Log_write_fields)
    from Cons.IH[OF f(1-3) rest] f(4-7) x'(1) show ?thesis by simp
  qed
qed

theorem floor_holder_blocks_witness:
  "mCurrentThreadId (the (run [Append 1 (Value ''a''), Worker] Log_init)) = Some 1 \<and> mCurrentLog (the (run [Append 1 (Value ''a''), Worker] Log_init)) = None \<and> \<not> mClosing (the (run [Append 1 (Value ''a''), Worker] Log_init))
   \<and> (\<exists>s'. run [Append 2 (Value ''x''), Worker, Append 2 Endl, Worker] (the (run [Append 1 (Value ''a''), Worker] Log_init)) = Some s'
        \<and> mCurrentThreadId s' = Some 1 \<and> mCurrentLog s' = None
        \<and> mLogQueue s' = mLogQueue (the (run [Append 1 (Value ''a''), Worker] Log_init)) @ appended [Append 2 (Value ''x''), Worker, Append 2 Endl, Worker]
        \<and> called (effects s') = called (effects (the (run [Append 1 (Value ''a''), Worker] Log_init)))
        \<and> \<not> wait_pred s' \<and> worker_step s' = Some s')"
proof -
  have h1: "mCurrentThreadId (the (run [Append 1 (Value ''a''), Worker] Log_init)) = Some 1" by code_simp
  have h2: "mCurrentLog (the (run [Append 1 (Value ''a''), Worker] Log_init)) = None" by code_simp
  have h3: "\<not> mClosing (the (run [Append 1 (Value ''a''), Worker] Log_init))" by code_simp
  have h4: "\<forall>x\<in>set [Append 2 (Value ''x''), Worker, Append 2 Endl, Worker]. x = Worker \<or> (\<exists>t v. x = Append t v \<and> t \<noteq> 1)" by simp
  from floor_holder_blocks [OF h1 h2 h3 h4] h1 h2 h3 show ?thesis by blast
qed

section \<open>The mutex and the writes to the sink\<close>

lemma held_after_append [simp]: "held_after h (xs @ ys) = held_after (held_after h xs) ys"
  by (induction h xs rule: held_after.induct) auto

lemma under_mutex_append [simp]:
  "under_mutex h (xs @ ys) = (under_mutex h xs \<and> under_mutex (held_after h xs) ys)"
  by (induction h xs rule: under_mutex.induct) auto

lemma pass_events_append [simp]: "pass_events (xs @ ys) = (pass_events xs \<and> pass_events ys)"
  by (induction xs rule: pass_events.induct) auto

lemma pass_events_calls [simp]: "pass_events (map Call es)"
  by (induction es) auto










end
